theory Spec2Isabelle
  imports Main "HOL-Library.FSet" "HOL-Library.Sublist"
begin

section \<open>Python string primitives used by the parser\<close>

text \<open>
  The file is opened with \<^verbatim>\<open>encoding="latin-1"\<close>: every byte is one character, so a
  line is a list of 8-bit characters, which is what \<^typ>\<open>string\<close> is.
\<close>

definition dquote :: char where
  "dquote = CHR 0x22"

definition newline :: char where
  "newline = CHR 0x0A"

definition bar :: char where
  "bar = CHR ''|''"

text \<open>
  \<^verbatim>\<open>str.strip()\<close> without argument removes the characters for which
  \<^verbatim>\<open>str.isspace\<close> holds. Among the code points 0..255 these are 9..13, 28..32, 133 and
  160.
\<close>

definition isspace :: "char \<Rightarrow> bool" where
  "isspace c =
     (let n = (of_char c :: nat)
      in (9 \<le> n \<and> n \<le> 13) \<or> (28 \<le> n \<and> n \<le> 32) \<or> n = 133 \<or> n = 160)"

text \<open>\<^verbatim>\<open>s.strip(chars)\<close>: drop the leading and the trailing run of characters in the set.\<close>

definition strip_chars :: "(char \<Rightarrow> bool) \<Rightarrow> string \<Rightarrow> string" where
  "strip_chars P s = rev (dropWhile P (rev (dropWhile P s)))"

text \<open>\<^verbatim>\<open>s.split(sep)\<close> for a one-character separator: always at least one part.\<close>

fun split_on :: "char \<Rightarrow> string \<Rightarrow> string list" where
  "split_on sep [] = [[]]"
| "split_on sep (c # cs) =
     (if c = sep then [] # split_on sep cs
      else (case split_on sep cs of
              p # ps \<Rightarrow> (c # p) # ps
            | [] \<Rightarrow> [[c]]))"

section \<open>Data frames\<close>

text \<open>
  A \<^verbatim>\<open>pandas.DataFrame\<close> with the default integer index: the column labels and the
  rows. The cells of a parsed file are strings; the cells of the merge result are
  optional strings, \<open>None\<close> standing for pandas' NaN.
\<close>

record 'c dataframe =
  columns :: "string list"
  cells :: "'c list list"

type_synonym cell = "string option"

text \<open>
  The exceptions raised by the code that is modelled. \<open>KeyError\<close> carries the label that
  was not found.
\<close>

datatype exn =
    OSError
  | IndexError
  | KeyError string
  | InvalidIndexError

section \<open>The parser: \<^verbatim>\<open>parse_text_file\<close>\<close>

record parser_state =
  rows :: "string list list"
  col_count :: "nat option"
  line_no :: nat

text \<open>\<^verbatim>\<open>line.strip("\n").strip()\<close>\<close>

definition strip_line :: "string \<Rightarrow> string" where
  "strip_line raw = strip_chars isspace (strip_chars (\<lambda>c. c = newline) raw)"

text \<open>\<^verbatim>\<open>if nrows and len(rows) >= nrows\<close>: \<open>None\<close> and \<open>0\<close> are falsy.\<close>

definition stop_early :: "int option \<Rightarrow> parser_state \<Rightarrow> bool" where
  "stop_early nrows st =
     (case nrows of
        None \<Rightarrow> False
      | Some k \<Rightarrow> k \<noteq> 0 \<and> k \<le> int (length (rows st)))"

text \<open>Fix broken or unbalanced quotes, then split by the bar.\<close>

definition split_fields :: "string \<Rightarrow> string list" where
  "split_fields line =
     split_on bar
       (if count_list line dquote mod 2 \<noteq> 0 then filter (\<lambda>c. c \<noteq> dquote) line else line)"

text \<open>The row has fewer or more columns than the first one: pad or cut.\<close>

definition fix_width :: "nat \<Rightarrow> string list \<Rightarrow> string list" where
  "fix_width n parts =
     (if length parts < n then parts @ replicate (n - length parts) []
      else if length parts > n then take n parts
      else parts)"

text \<open>\<^verbatim>\<open>p.strip().strip('"')\<close>\<close>

definition clean_field :: "string \<Rightarrow> string" where
  "clean_field p = strip_chars (\<lambda>c. c = dquote) (strip_chars isspace p)"

text \<open>The body of the loop for a line that is not empty after stripping.\<close>

definition append_row :: "string \<Rightarrow> parser_state \<Rightarrow> parser_state" where
  "append_row line st =
     (let parts = split_fields line in
      case col_count st of
        None \<Rightarrow>
          st\<lparr>rows := rows st @ [map clean_field parts], col_count := Some (length parts)\<rparr>
      | Some n \<Rightarrow>
          st\<lparr>rows := rows st @ [map clean_field (fix_width n parts)]\<rparr>)"

text \<open>The \<^verbatim>\<open>for line in f\<close> loop; reaching the row limit leaves it.\<close>

fun read_lines :: "int option \<Rightarrow> string list \<Rightarrow> parser_state \<Rightarrow> parser_state" where
  "read_lines nrows [] st = st"
| "read_lines nrows (raw # rest) st =
     (let st1 = st\<lparr>line_no := line_no st + 1\<rparr>;
          line = strip_line raw
      in if stop_early nrows st1 then st1
         else if line = [] then read_lines nrows rest st1
         else read_lines nrows rest (append_row line st1))"

text \<open>
  The file is either unreadable (\<open>None\<close>: \<^verbatim>\<open>open\<close> raises) or the list of its lines
  as the iteration yields them. \<^verbatim>\<open>df.iloc[0]\<close> raises \<^verbatim>\<open>IndexError\<close> on a frame with
  no row. All rows have the width of the first (lemmas \<open>parse_rows\<close> and
  \<open>length_row_of\<close> below), so the frame built from them has exactly these cells.
\<close>

definition parse_text_file :: "string list option \<Rightarrow> int option \<Rightarrow> exn + string dataframe" where
  "parse_text_file f nrows =
     (case f of
        None \<Rightarrow> Inl OSError
      | Some content \<Rightarrow>
          (case rows (read_lines nrows content \<lparr>rows = [], col_count = None, line_no = 0\<rparr>) of
             [] \<Rightarrow> Inl IndexError
           | header # body \<Rightarrow> Inr \<lparr>columns = header, cells = body\<rparr>))"

section \<open>What the parser computes, as functions of the lines\<close>

text \<open>The lines that produce a row: stripped and not empty, in file order.\<close>

definition nonblank :: "string list \<Rightarrow> string list" where
  "nonblank content = filter (\<lambda>l. l \<noteq> []) (map strip_line content)"

text \<open>The row of a line once the column count is \<open>n\<close>.\<close>

definition row_of :: "nat \<Rightarrow> string \<Rightarrow> string list" where
  "row_of n line = map clean_field (fix_width n (split_fields line))"

text \<open>All rows of a file read without limit: the first line fixes the width.\<close>

definition all_rows :: "string list \<Rightarrow> string list list" where
  "all_rows content =
     (case nonblank content of
        [] \<Rightarrow> []
      | l # ls \<Rightarrow> map (row_of (length (split_fields l))) (l # ls))"

text \<open>The effect of the row limit on a list of rows still to come, \<open>m\<close> rows being there.\<close>

definition limit :: "int option \<Rightarrow> nat \<Rightarrow> 'a list \<Rightarrow> 'a list" where
  "limit nrows m xs =
     (case nrows of
        None \<Rightarrow> xs
      | Some k \<Rightarrow> if k = 0 then xs else take (nat (k - int m)) xs)"

text \<open>
  The cleaning as the specification words it, for comparison with \<open>clean_field\<close>: strip
  surrounding whitespace, then remove one layer of surrounding double quotes.
\<close>

definition one_layer_cleaned :: "string \<Rightarrow> string" where
  "one_layer_cleaned p =
     (let s = strip_chars isspace p
      in if 2 \<le> length s \<and> hd s = dquote \<and> last s = dquote then butlast (tl s) else s)"

section \<open>The lookup: the statements run by the \<^verbatim>\<open>Run XLOOKUP\<close> button\<close>

text \<open>A rule \<^verbatim>\<open>(pk, sk, so)\<close>: primary lookup column, secondary match column, secondary
  return column.\<close>

type_synonym rule = "string \<times> string \<times> string"

text \<open>The counter \<^verbatim>\<open>c\<close> inside the f-string: its decimal digits.\<close>

definition digit :: "nat \<Rightarrow> char" where
  "digit d = char_of (48 + d)"

fun str_nat :: "nat \<Rightarrow> string" where
  "str_nat n = (if n < 10 then [digit n] else str_nat (n div 10) @ [digit (n mod 10)])"

declare str_nat.simps [simp del]

text \<open>Reading the digits back, to see that different counters give different texts.\<close>

definition digits_value :: "string \<Rightarrow> nat" where
  "digits_value s = foldl (\<lambda>a ch. 10 * a + (of_char ch - 48)) 0 s"

lemma digits_value_str_nat: "digits_value (str_nat n) = n"
proof (induction n rule: str_nat.induct)
  case (1 n)
  show ?case
  proof (cases "n < 10")
    case True
    then show ?thesis
      by (subst str_nat.simps) (simp add: digits_value_def digit_def)
  next
    case False
    have "n mod 10 < 10" by simp
    then have d: "of_char (digit (n mod 10)) = 48 + n mod 10"
      by (simp add: digit_def)
    from False 1 have "digits_value (str_nat (n div 10)) = n div 10" by simp
    then show ?thesis
      using False
      by (subst str_nat.simps) (simp add: digits_value_def d)
  qed
qed

lemma inj_str_nat: "inj str_nat"
  by (rule inj_on_inverseI [of _ digits_value]) (rule digits_value_str_nat)

text \<open>The name tried for the counter \<open>c\<close>: \<^verbatim>\<open>f"{base_name}_{c}"\<close>.\<close>

definition numbered :: "string \<Rightarrow> nat \<Rightarrow> string" where
  "numbered base_name c = base_name @ ''_'' @ str_nat c"

lemma inj_numbered: "inj (numbered base_name)"
  using inj_str_nat by (auto simp: inj_def numbered_def)

lemma finite_numbered_used: "finite {n. numbered base_name n |\<in>| used}"
proof -
  have "{n. numbered base_name n |\<in>| used} = numbered base_name -` fset used"
    by auto
  then show ?thesis
    using finite_vimageI [OF finite_fset inj_numbered] by simp
qed

text \<open>
  \<^verbatim>\<open>while new_col in used_columns: new_col = f"{base_name}_{c}"; c += 1\<close>, entered with
  \<^verbatim>\<open>new_col = base_name\<close> and \<^verbatim>\<open>c = 2\<close>.
\<close>

function name_loop :: "string \<Rightarrow> string fset \<Rightarrow> string \<Rightarrow> nat \<Rightarrow> string" where
  "name_loop base_name used new_col c =
     (if new_col |\<in>| used then name_loop base_name used (numbered base_name c) (c + 1)
      else new_col)"
  by pat_completeness auto

termination
proof (relation "measure (\<lambda>(base_name, used, new_col, c).
          2 * card {n. c \<le> n \<and> numbered base_name n |\<in>| used}
          + (if new_col |\<in>| used then 1 else 0))")
  show "wf (measure (\<lambda>(base_name, used, new_col, c).
          2 * card {n. c \<le> n \<and> numbered base_name n |\<in>| used}
          + (if new_col |\<in>| used then 1 else 0)))"
    by simp
next
  fix base_name :: string and used :: "string fset" and new_col :: string and c :: nat
  assume "new_col |\<in>| used"
  let ?A = "{n. c \<le> n \<and> numbered base_name n |\<in>| used}"
  let ?B = "{n. c + 1 \<le> n \<and> numbered base_name n |\<in>| used}"
  have fin: "finite ?A"
    by (rule finite_subset [OF _ finite_numbered_used]) auto
  have "2 * card ?B + (if numbered base_name c |\<in>| used then 1 else 0) < 2 * card ?A + 1"
  proof (cases "numbered base_name c |\<in>| used")
    case True
    then have "?A = insert c ?B" by (auto simp: le_Suc_eq)
    moreover have "c \<notin> ?B" by simp
    moreover have "finite ?B" by (rule finite_subset [OF _ fin]) auto
    ultimately have "card ?A = Suc (card ?B)" by simp
    with True show ?thesis by simp
  next
    case False
    then have "?A = ?B" by (auto simp: le_Suc_eq) (metis le_eq_less_or_eq Suc_leI)
    with False show ?thesis by simp
  qed
  with \<open>new_col |\<in>| used\<close>
  show "((base_name, used, numbered base_name c, c + 1), (base_name, used, new_col, c))
        \<in> measure (\<lambda>(base_name, used, new_col, c).
          2 * card {n. c \<le> n \<and> numbered base_name n |\<in>| used}
          + (if new_col |\<in>| used then 1 else 0))"
    by simp
qed

declare name_loop.simps [simp del]

text \<open>The position of a label among the column labels, if it is there.\<close>

fun index_of :: "string \<Rightarrow> string list \<Rightarrow> nat option" where
  "index_of x [] = None"
| "index_of x (y # ys) = (if x = y then Some 0 else map_option Suc (index_of x ys))"

text \<open>
  \<^verbatim>\<open>df[label]\<close>: the column as a list of its cells, \<^verbatim>\<open>KeyError\<close> when no column has the
  label. The labels of a table are taken to be distinct, as the specification's data model
  has them: what pandas does with a repeated label (it yields a frame, not a column) is
  not followed, and every result below about the lookup assumes distinct labels.
\<close>

definition getitem :: "'c dataframe \<Rightarrow> string \<Rightarrow> exn + 'c list" where
  "getitem df label =
     (case index_of label (columns df) of
        None \<Rightarrow> Inl (KeyError label)
      | Some i \<Rightarrow> Inr (map (\<lambda>r. r ! i) (cells df)))"

definition without :: "nat \<Rightarrow> 'a list \<Rightarrow> 'a list" where
  "without i xs = take i xs @ drop (Suc i) xs"

text \<open>
  \<^verbatim>\<open>df.set_index(sk)\<close>: \<^verbatim>\<open>KeyError\<close> when the column is absent; otherwise the cells of
  the column become the index and the column leaves the frame (\<^verbatim>\<open>drop=True\<close> is the
  default).
\<close>

definition set_index :: "'c dataframe \<Rightarrow> string \<Rightarrow> exn + ('c list \<times> 'c dataframe)" where
  "set_index df sk =
     (case index_of sk (columns df) of
        None \<Rightarrow> Inl (KeyError sk)
      | Some i \<Rightarrow>
          Inr (map (\<lambda>r. r ! i) (cells df),
               \<lparr>columns = without i (columns df), cells = map (without i) (cells df)\<rparr>))"

text \<open>
  \<^verbatim>\<open>series.map(map_series)\<close> with a series as the mapper: pandas looks the values up in
  the mapper's index with \<^verbatim>\<open>Index.get_indexer\<close>, which raises \<^verbatim>\<open>InvalidIndexError\<close> when
  the index has a repeated value, before it looks at the values to map. A value that is
  not in the index, NaN included, maps to NaN.
\<close>

definition series_map :: "cell list \<Rightarrow> (string \<times> string) list \<Rightarrow> exn + cell list" where
  "series_map arr map_series =
     (if \<not> distinct (map fst map_series) then Inl InvalidIndexError
      else Inr (map (\<lambda>v. case v of None \<Rightarrow> None | Some k \<Rightarrow> map_of map_series k) arr))"

text \<open>\<^verbatim>\<open>df[label] = values\<close>: a new column at the right end, or the column replaced.\<close>

definition setitem :: "'c dataframe \<Rightarrow> string \<Rightarrow> 'c list \<Rightarrow> 'c dataframe" where
  "setitem df label vals =
     (case index_of label (columns df) of
        None \<Rightarrow> \<lparr>columns = columns df @ [label], cells = map2 (\<lambda>r v. r @ [v]) (cells df) vals\<rparr>
      | Some i \<Rightarrow> \<lparr>columns = columns df, cells = map2 (\<lambda>r v. r[i := v]) (cells df) vals\<rparr>)"

text \<open>\<^verbatim>\<open>primary_df.copy()\<close>: a frame of its own with the same labels and cells.\<close>

definition df_copy :: "string dataframe \<Rightarrow> cell dataframe" where
  "df_copy df = \<lparr>columns = columns df, cells = map (map Some) (cells df)\<rparr>"

text \<open>
  The variables of the script while the rules run. \<open>errors\<close> are the messages shown by
  \<^verbatim>\<open>st.error\<close>: the number of the rule, the rule and the exception.
\<close>

record lookup_state =
  primary_df :: "string dataframe"
  secondary_df :: "string dataframe"
  result_df :: "cell dataframe"
  used_columns :: "string fset"
  errors :: "(nat \<times> rule \<times> exn) list"

text \<open>The two statements under \<^verbatim>\<open>try\<close>; the first exception raised leaves the block.\<close>

definition try_rule :: "lookup_state \<Rightarrow> string \<Rightarrow> rule \<Rightarrow> exn + cell dataframe" where
  "try_rule st new_col r =
     (case r of (pk, sk, so) \<Rightarrow>
        (case set_index (secondary_df st) sk of
           Inl e \<Rightarrow> Inl e
         | Inr (keys, others) \<Rightarrow>
             (case getitem others so of
                Inl e \<Rightarrow> Inl e
              | Inr vals \<Rightarrow>
                  (case getitem (result_df st) pk of
                     Inl e \<Rightarrow> Inl e
                   | Inr arr \<Rightarrow>
                       (case series_map arr (zip keys vals) of
                          Inl e \<Rightarrow> Inl e
                        | Inr col \<Rightarrow> Inr (setitem (result_df st) new_col col))))))"

text \<open>The body of \<^verbatim>\<open>for idx, (pk, sk, so) in enumerate(rules, start=1)\<close>.\<close>

definition rule_step :: "lookup_state \<Rightarrow> nat \<times> rule \<Rightarrow> lookup_state" where
  "rule_step st ir =
     (case ir of (idx, pk, sk, so) \<Rightarrow>
        (let base_name = pk @ ''_FROM_'' @ so;
             new_col = name_loop base_name (used_columns st) base_name 2;
             st1 = st\<lparr>used_columns := finsert new_col (used_columns st)\<rparr>
         in case try_rule st1 new_col (pk, sk, so) of
              Inr df \<Rightarrow> st1\<lparr>result_df := df\<rparr>
            | Inl e \<Rightarrow> st1\<lparr>errors := errors st1 @ [(idx, (pk, sk, so), e)]\<rparr>))"

text \<open>The block under \<^verbatim>\<open>if run_lookup:\<close> up to the end of the loop.\<close>

definition run_lookup :: "string dataframe \<Rightarrow> string dataframe \<Rightarrow> rule list \<Rightarrow> lookup_state" where
  "run_lookup primary secondary rules =
     foldl rule_step
       \<lparr>primary_df = primary, secondary_df = secondary, result_df = df_copy primary,
        used_columns = fset_of_list (columns primary), errors = []\<rparr>
       (enumerate 1 rules)"

text \<open>
  A table as the specification's data model has it: the labels are distinct and every
  row has one cell per label.
\<close>

definition table_ok :: "'c dataframe \<Rightarrow> bool" where
  "table_ok df \<longleftrightarrow>
     distinct (columns df) \<and> (\<forall>r\<in>set (cells df). length r = length (columns df))"

text \<open>The two labels of a rule that make the name of its new column.\<close>

definition name_parts :: "rule \<Rightarrow> string \<times> string" where
  "name_parts r = (case r of (pk, sk, so) \<Rightarrow> (pk, so))"

text \<open>
  The tables of the specification's example: a primary table with the column ID and the
  rows 1, 2, 3, and a secondary table with the columns ID and NAME and the rows 2, x and
  3, y. The third table repeats the key 2.
\<close>

definition example_primary :: "string dataframe" where
  "example_primary = \<lparr>columns = [''ID''], cells = [[''1''], [''2''], [''3'']]\<rparr>"

definition example_secondary :: "string dataframe" where
  "example_secondary = \<lparr>columns = [''ID'', ''NAME''], cells = [[''2'', ''x''], [''3'', ''y'']]\<rparr>"

definition example_repeated :: "string dataframe" where
  "example_repeated = \<lparr>columns = [''ID'', ''NAME''], cells = [[''2'', ''x''], [''2'', ''y'']]\<rparr>"

section \<open>Properties of the parser\<close>

lemma fix_width_same: "fix_width (length ps) ps = ps"
  by (simp add: fix_width_def)

lemma length_fix_width: "length (fix_width n ps) = n"
  by (simp add: fix_width_def)

lemma nat_diff_Suc: "\<not> k \<le> int m \<Longrightarrow> nat (k - int m) = Suc (nat (k - int (Suc m)))"
  by simp

lemma limit_Cons:
  "\<not> stop_early nrows st \<Longrightarrow> length (rows st) = m \<Longrightarrow>
   limit nrows m (x # xs) = x # limit nrows (Suc m) xs"
  by (auto simp: limit_def stop_early_def nat_diff_Suc simp del: of_nat_Suc split: option.splits)

lemma read_lines_locked:
  "col_count st = Some n \<Longrightarrow>
   rows (read_lines nrows content st) =
     rows st @ limit nrows (length (rows st)) (map (row_of n) (nonblank content))"
proof (induction content arbitrary: st)
  case Nil
  then show ?case by (simp add: nonblank_def limit_def split: option.split)
next
  case (Cons raw rest)
  let ?st1 = "st\<lparr>line_no := line_no st + 1\<rparr>"
  show ?case
  proof (cases "stop_early nrows ?st1")
    case True
    then show ?thesis
      by (auto simp: stop_early_def limit_def Let_def split: option.splits)
  next
    case False
    show ?thesis
    proof (cases "strip_line raw = []")
      case True
      with False Cons.IH [of ?st1] Cons.prems show ?thesis
        by (simp add: nonblank_def Let_def)
    next
      case nb: False
      define st2 where "st2 = append_row (strip_line raw) ?st1"
      have cc: "col_count st2 = Some n"
        using Cons.prems by (simp add: st2_def append_row_def Let_def)
      have rw: "rows st2 = rows st @ [row_of n (strip_line raw)]"
        using Cons.prems by (simp add: st2_def append_row_def Let_def row_of_def)
      have "rows (read_lines nrows (raw # rest) st) = rows (read_lines nrows rest st2)"
        using False nb by (simp add: Let_def st2_def)
      also have "\<dots> = rows st2 @ limit nrows (length (rows st2)) (map (row_of n) (nonblank rest))"
        by (rule Cons.IH [OF cc])
      also have "\<dots> = rows st @ limit nrows (length (rows st)) (map (row_of n) (nonblank (raw # rest)))"
      proof -
        have "limit nrows (length (rows st)) (row_of n (strip_line raw) # map (row_of n) (nonblank rest))
              = row_of n (strip_line raw) # limit nrows (Suc (length (rows st))) (map (row_of n) (nonblank rest))"
          by (rule limit_Cons [OF False]) simp
        moreover have "nonblank (raw # rest) = strip_line raw # nonblank rest"
          using nb by (simp add: nonblank_def)
        ultimately show ?thesis by (simp add: rw)
      qed
      finally show ?thesis .
    qed
  qed
qed


lemma read_lines_start:
  "col_count st = None \<Longrightarrow> rows st = [] \<Longrightarrow>
   rows (read_lines nrows content st) = limit nrows 0 (all_rows content)"
proof (induction content arbitrary: st)
  case Nil
  then show ?case by (simp add: nonblank_def all_rows_def limit_def split: option.split)
next
  case (Cons raw rest)
  define st1 where "st1 = st\<lparr>line_no := Suc (line_no st)\<rparr>"
  have st1: "col_count st1 = None" "rows st1 = []"
    using Cons.prems by (simp_all add: st1_def)
  show ?case
  proof (cases "stop_early nrows st1")
    case True
    then have "limit nrows 0 (all_rows (raw # rest)) = []"
      by (auto simp: stop_early_def limit_def st1 split: option.splits)
    with True show ?thesis
      by (simp add: Let_def st1_def [symmetric] st1)
  next
    case False
    show ?thesis
    proof (cases "strip_line raw = []")
      case True
      have "all_rows (raw # rest) = all_rows rest"
        using True by (simp add: all_rows_def nonblank_def)
      with False True Cons.IH [OF st1] show ?thesis
        by (simp add: Let_def st1_def [symmetric])
    next
      case nb: False
      define n where "n = length (split_fields (strip_line raw))"
      define st2 where "st2 = append_row (strip_line raw) st1"
      have cc: "col_count st2 = Some n"
        by (simp add: st2_def append_row_def Let_def st1 n_def)
      have rw: "rows st2 = [row_of n (strip_line raw)]"
        by (simp add: st2_def append_row_def Let_def st1 n_def row_of_def fix_width_same)
      have ar: "all_rows (raw # rest) = row_of n (strip_line raw) # map (row_of n) (nonblank rest)"
        using nb by (simp add: all_rows_def nonblank_def n_def)
      have "rows (read_lines nrows (raw # rest) st) = rows (read_lines nrows rest st2)"
        using False nb by (simp add: Let_def st2_def st1_def)
      also have "\<dots> = rows st2 @ limit nrows (length (rows st2)) (map (row_of n) (nonblank rest))"
        by (rule read_lines_locked [OF cc])
      also have "\<dots> = limit nrows 0 (all_rows (raw # rest))"
        by (simp add: rw ar limit_Cons [OF False, of 0] st1)
      finally show ?thesis .
    qed
  qed
qed

lemma parse_rows:
  "rows (read_lines nrows content \<lparr>rows = [], col_count = None, line_no = 0\<rparr>) =
     limit nrows 0 (all_rows content)"
  by (rule read_lines_start) simp_all

lemma parse_Inr_iff:
  "parse_text_file (Some content) nrows = Inr t \<longleftrightarrow>
     limit nrows 0 (all_rows content) = columns t # cells t"
  by (cases t) (auto simp: parse_text_file_def parse_rows split: list.splits)

lemma parse_Inl_iff:
  "parse_text_file (Some content) nrows = Inl e \<longleftrightarrow>
     e = IndexError \<and> limit nrows 0 (all_rows content) = []"
  by (auto simp: parse_text_file_def parse_rows split: list.splits)

lemma limit_take: "\<exists>j. limit nrows m xs = take j xs"
  by (auto simp: limit_def split: option.splits intro: exI [of _ "length xs"])

lemma all_rows_eq:
  "all_rows content = map (row_of (length (split_fields (hd (nonblank content))))) (nonblank content)"
  by (simp add: all_rows_def split: list.splits)

lemma all_rows_nth:
  "i < length (all_rows content) \<Longrightarrow>
   all_rows content ! i = row_of (length (split_fields (hd (nonblank content)))) (nonblank content ! i)"
  by (simp add: all_rows_eq)

lemma length_all_rows: "length (all_rows content) = length (nonblank content)"
  by (simp add: all_rows_def split: list.splits)

lemma length_row_of: "length (row_of n l) = n"
  by (simp add: row_of_def length_fix_width)

lemma parsed_rows:
  assumes "parse_text_file (Some content) nrows = Inr t"
  shows "nonblank content \<noteq> []"
    and "length (columns t) = length (split_fields (hd (nonblank content)))"
    and "columns t = map clean_field (split_fields (hd (nonblank content)))"
    and "length (cells t) < length (nonblank content)"
    and "i < length (cells t) \<Longrightarrow>
           cells t ! i = row_of (length (columns t)) (nonblank content ! Suc i)"
proof -
  from assms have eq: "limit nrows 0 (all_rows content) = columns t # cells t"
    by (simp add: parse_Inr_iff)
  obtain j where j: "columns t # cells t = take j (all_rows content)"
    using limit_take [of nrows 0 "all_rows content"] eq by auto
  then have ne: "all_rows content \<noteq> []" by auto
  then show nb: "nonblank content \<noteq> []"
    by (auto simp: all_rows_def)
  have len: "Suc (length (cells t)) \<le> length (nonblank content)"
    using arg_cong [OF j, of length] by (simp add: length_all_rows)
  then show "length (cells t) < length (nonblank content)" by simp
  have nth: "k \<le> length (cells t) \<Longrightarrow> (columns t # cells t) ! k = 
      row_of (length (split_fields (hd (nonblank content)))) (nonblank content ! k)" for k
  proof -
    assume k: "k \<le> length (cells t)"
    then have "k < length (take j (all_rows content))" using j [symmetric] by simp
    then have "take j (all_rows content) ! k = all_rows content ! k" "k < length (all_rows content)"
      by simp_all
    then show ?thesis using all_rows_nth [of k content] j by simp
  qed
  from nth [of 0] nb show c: "columns t = map clean_field (split_fields (hd (nonblank content)))"
    by (simp add: row_of_def fix_width_same hd_conv_nth)
  then show w: "length (columns t) = length (split_fields (hd (nonblank content)))" by simp
  show "cells t ! i = row_of (length (columns t)) (nonblank content ! Suc i)" if "i < length (cells t)"
    using nth [of "Suc i"] that by (simp add: w)
qed

lemma strip_chars_Nil: "strip_chars P [] = []"
  by (simp add: strip_chars_def)

lemma strip_chars_ends:
  assumes "strip_chars P s \<noteq> []"
  shows "\<not> P (hd (strip_chars P s))" and "\<not> P (last (strip_chars P s))"
proof -
  define xs where "xs = dropWhile P s"
  define ys where "ys = dropWhile P (rev xs)"
  have res: "strip_chars P s = rev ys"
    by (simp add: strip_chars_def xs_def ys_def)
  with assms have ys: "ys \<noteq> []" by simp
  then have xs: "xs \<noteq> []" by (auto simp: ys_def)
  have "last (rev ys) = hd ys" using ys by (simp add: last_rev)
  moreover have "\<not> P (hd ys)" using ys unfolding ys_def by (rule hd_dropWhile)
  ultimately show "\<not> P (last (strip_chars P s))" by (simp add: res)
  have "hd (rev ys) = last ys" using ys by (simp add: hd_rev)
  also have "\<dots> = last (rev xs)"
    using ys unfolding ys_def
    by (metis takeWhile_dropWhile_id last_appendR)
  also have "\<dots> = hd xs" using xs by (simp add: last_rev)
  finally have "hd (strip_chars P s) = hd xs" by (simp add: res)
  moreover have "\<not> P (hd xs)" using xs unfolding xs_def by (rule hd_dropWhile)
  ultimately show "\<not> P (hd (strip_chars P s))" by simp
qed

lemma clean_field_Nil: "clean_field [] = []"
  by (simp add: clean_field_def strip_chars_Nil)

lemma clean_field_ends:
  "clean_field p \<noteq> [] \<Longrightarrow> hd (clean_field p) \<noteq> dquote \<and> last (clean_field p) \<noteq> dquote"
  unfolding clean_field_def using strip_chars_ends [of "\<lambda>c. c = dquote"] by blast

lemma row_of_short:
  "length (split_fields l) < n \<Longrightarrow>
   row_of n l = map clean_field (split_fields l) @ replicate (n - length (split_fields l)) []"
  by (simp add: row_of_def fix_width_def clean_field_Nil)

lemma row_of_long:
  "n < length (split_fields l) \<Longrightarrow> row_of n l = map clean_field (take n (split_fields l))"
  by (simp add: row_of_def fix_width_def)

lemma limit_falsy: "limit (Some 0) m xs = limit None m xs"
  by (simp add: limit_def)

lemma parse_Some_0: "parse_text_file f (Some 0) = parse_text_file f None"
  by (cases f) (simp_all add: parse_text_file_def parse_rows limit_falsy)

lemma parse_fails_iff:
  "parse_text_file (Some content) nrows = Inl e \<longleftrightarrow>
     e = IndexError \<and> (nonblank content = [] \<or> (\<exists>k<0. nrows = Some k))"
  by (auto simp: parse_Inl_iff limit_def all_rows_eq split: option.splits)

lemma parsed_length:
  assumes "parse_text_file (Some content) nrows = Inr t"
  shows "Suc (length (cells t)) =
           (case nrows of None \<Rightarrow> length (nonblank content)
            | Some k \<Rightarrow> if k = 0 then length (nonblank content)
                        else min (nat k) (length (nonblank content)))"
proof -
  from assms have "limit nrows 0 (all_rows content) = columns t # cells t"
    by (simp add: parse_Inr_iff)
  from arg_cong [OF this, of length] show ?thesis
    by (auto simp: limit_def length_all_rows split: option.splits)
qed

subsection \<open>The claims about the parser\<close>

text \<open>
  Claim C1. The parser is to return a table for every readable file and, when no row
  is produced, an empty table without columns. The code does not: with no row,
  \<^verbatim>\<open>df.iloc[0]\<close> raises. Evaluated here on an empty file read with the preview limit of 50
  and on a file of two blank lines read without limit.
\<close>

theorem parse_empty_file_raises:
  "parse_text_file (Some []) (Some 50) = Inl IndexError
   \<and> parse_text_file (Some [[newline], ''  '' @ [newline]]) None = Inl IndexError"
  by code_simp

text \<open>
  Claim C3, as stated: a field surrounded by two layers of double quotes keeps one layer.
  On the one-line file whose only field is \<^verbatim>\<open>""x""\<close> the parser returns the column
  \<^verbatim>\<open>x\<close>, while removing one layer gives \<^verbatim>\<open>"x"\<close>.
\<close>

theorem clean_field_all_quotes_counterexample:
  "parse_text_file (Some [[dquote, dquote, CHR ''x'', dquote, dquote]]) None =
     Inr \<lparr>columns = [''x''], cells = []\<rparr>
   \<and> one_layer_cleaned [dquote, dquote, CHR ''x'', dquote, dquote] = [dquote, CHR ''x'', dquote]
   \<and> clean_field [dquote, dquote, CHR ''x'', dquote, dquote] \<noteq>
       one_layer_cleaned [dquote, dquote, CHR ''x'', dquote, dquote]"
  by code_simp

text \<open>
  Claim C3, amended. Every row of a parsed table, the header included, is the row of
  fields of its line (padded or cut to the column count), each field stripped of
  surrounding whitespace and then of all leading and all trailing double quotes: no
  cell that is not empty begins or ends with a double quote. The same cleaning is
  applied to every field.
\<close>

theorem parse_cells_cleaned:
  assumes "parse_text_file (Some content) nrows = Inr t"
    and "i < length (columns t # cells t)"
  shows "(columns t # cells t) ! i =
           map (\<lambda>p. strip_chars (\<lambda>c. c = dquote) (strip_chars isspace p))
             (fix_width (length (columns t)) (split_fields (nonblank content ! i)))
         \<and> (\<forall>c\<in>set ((columns t # cells t) ! i). c \<noteq> [] \<longrightarrow> hd c \<noteq> dquote \<and> last c \<noteq> dquote)"
proof -
  have row: "(columns t # cells t) ! i = row_of (length (columns t)) (nonblank content ! i)"
  proof (cases i)
    case 0
    then show ?thesis
      using parsed_rows(1-3) [OF assms(1)]
      by (simp add: row_of_def fix_width_same hd_conv_nth)
  next
    case (Suc j)
    then show ?thesis using parsed_rows(5) [OF assms(1), of j] assms(2) by simp
  qed
  have "clean_field = (\<lambda>p. strip_chars (\<lambda>c. c = dquote) (strip_chars isspace p))"
    by (rule ext) (simp add: clean_field_def)
  then show ?thesis
    using row clean_field_ends by (auto simp: row_of_def)
qed

theorem parse_cells_cleaned_witness:
  "parse_text_file (Some [''K|V'', [dquote, dquote] @ ''a '' @ [dquote, dquote] @ ''| b'']) None =
     Inr \<lparr>columns = [''K'', ''V''], cells = [[''a '', ''b'']]\<rparr>
   \<and> [''a '', ''b''] =
       map (\<lambda>p. strip_chars (\<lambda>c. c = dquote) (strip_chars isspace p))
         (fix_width (length [''K'', ''V'']) (split_fields
            (nonblank [''K|V'', [dquote, dquote] @ ''a '' @ [dquote, dquote] @ ''| b''] ! 1)))
   \<and> hd ''a '' \<noteq> dquote \<and> last ''b'' \<noteq> dquote"
proof -
  have e: "parse_text_file (Some [''K|V'', [dquote, dquote] @ ''a '' @ [dquote, dquote] @ ''| b'']) None =
     Inr \<lparr>columns = [''K'', ''V''], cells = [[''a '', ''b'']]\<rparr>"
    by code_simp
  have "(1::nat) < length (columns \<lparr>columns = [''K'', ''V''], cells = [[''a '', ''b'']]\<rparr>
           # cells \<lparr>columns = [''K'', ''V''], cells = [[''a '', ''b'']]\<rparr>)"
    by simp
  note c = parse_cells_cleaned [OF e this]
  have "[''a '', ''b''] =
       map (\<lambda>p. strip_chars (\<lambda>c. c = dquote) (strip_chars isspace p))
         (fix_width (length [''K'', ''V'']) (split_fields
            (nonblank [''K|V'', [dquote, dquote] @ ''a '' @ [dquote, dquote] @ ''| b''] ! 1)))"
    using c [THEN conjunct1] by simp
  moreover have "hd ''a '' \<noteq> dquote \<and> last ''b'' \<noteq> dquote"
    using c [THEN conjunct2] by simp
  ultimately show ?thesis using e by blast
qed

text \<open>
  Claim C4. Whenever the parser returns a table, the header has as many cells as the
  first non-empty line has fields, and every data row has as many cells as the header.
\<close>

theorem parse_rectangular:
  assumes "parse_text_file f nrows = Inr t"
  shows "\<exists>content. f = Some content \<and> nonblank content \<noteq> []
           \<and> length (columns t) = length (split_fields (hd (nonblank content)))
           \<and> (\<forall>r\<in>set (cells t). length r = length (columns t))"
proof -
  from assms obtain content where f: "f = Some content"
    by (cases f) (simp_all add: parse_text_file_def)
  note p = assms [unfolded f]
  have "length r = length (columns t)" if "r \<in> set (cells t)" for r
  proof -
    from that obtain i where "i < length (cells t)" "r = cells t ! i"
      by (auto simp: in_set_conv_nth)
    then show ?thesis using parsed_rows(5) [OF p, of i] by (simp add: length_row_of)
  qed
  with f parsed_rows(1,2) [OF p] show ?thesis by blast
qed

theorem parse_rectangular_witness:
  "parse_text_file (Some [''A|B|C'', '''', ''1|2'', ''3|4|5|6'']) (Some 50) =
     Inr \<lparr>columns = [''A'', ''B'', ''C''], cells = [[''1'', ''2'', ''''], [''3'', ''4'', ''5'']]\<rparr>
   \<and> list_all (\<lambda>r. length r = length [''A'', ''B'', ''C'']) [[''1'', ''2'', ''''], [''3'', ''4'', ''5'']]"
proof -
  have e: "parse_text_file (Some [''A|B|C'', '''', ''1|2'', ''3|4|5|6'']) (Some 50) =
     Inr \<lparr>columns = [''A'', ''B'', ''C''], cells = [[''1'', ''2'', ''''], [''3'', ''4'', ''5'']]\<rparr>"
    by code_simp
  from parse_rectangular [OF e] have
    "list_all (\<lambda>r. length r = length [''A'', ''B'', ''C'']) [[''1'', ''2'', ''''], [''3'', ''4'', ''5'']]"
    by (simp add: list_all_iff)
  with e show ?thesis by blast
qed

text \<open>
  Claim C9. The \<open>i\<close>-th data row of a parsed table comes from the non-empty line
  number \<open>i + 1\<close> (counting from 0). If that line has fewer fields than the header, the
  row is its cleaned fields followed by empty strings up to the column count; if it has
  more, the row is the cleaned first fields and the others are dropped; otherwise the row
  is its cleaned fields. Without a row limit every non-empty line after the first gives a
  row. The lines \<^verbatim>\<open>A|B|C\<close>, \<^verbatim>\<open>1|2|3\<close>, \<^verbatim>\<open>4|5\<close> give the columns A, B, C and the rows
  1, 2, 3 and 4, 5, empty.
\<close>

theorem parse_pad_truncate:
  assumes "parse_text_file (Some content) nrows = Inr t"
    and "i < length (cells t)"
  shows "Suc i < length (nonblank content)
     \<and> (length (split_fields (nonblank content ! Suc i)) < length (columns t) \<longrightarrow>
          cells t ! i = map clean_field (split_fields (nonblank content ! Suc i))
             @ replicate (length (columns t) - length (split_fields (nonblank content ! Suc i))) [])
     \<and> (length (columns t) < length (split_fields (nonblank content ! Suc i)) \<longrightarrow>
          cells t ! i = map clean_field (take (length (columns t)) (split_fields (nonblank content ! Suc i))))
     \<and> (length (split_fields (nonblank content ! Suc i)) = length (columns t) \<longrightarrow>
          cells t ! i = map clean_field (split_fields (nonblank content ! Suc i)))
     \<and> (nrows = None \<longrightarrow> Suc (length (cells t)) = length (nonblank content))
     \<and> parse_text_file (Some [''A|B|C'', ''1|2|3'', ''4|5'']) None =
         Inr \<lparr>columns = [''A'', ''B'', ''C''], cells = [[''1'', ''2'', ''3''], [''4'', ''5'', '''']]\<rparr>"
proof -
  have ex: "parse_text_file (Some [''A|B|C'', ''1|2|3'', ''4|5'']) None =
         Inr \<lparr>columns = [''A'', ''B'', ''C''], cells = [[''1'', ''2'', ''3''], [''4'', ''5'', '''']]\<rparr>"
    by code_simp
  have r: "cells t ! i = row_of (length (columns t)) (nonblank content ! Suc i)"
    by (rule parsed_rows(5) [OF assms])
  have "Suc i < length (nonblank content)"
    using parsed_rows(4) [OF assms(1)] assms(2) by simp
  moreover have "nrows = None \<longrightarrow> Suc (length (cells t)) = length (nonblank content)"
    using parsed_length [OF assms(1)] by simp
  ultimately show ?thesis
    using ex by (simp add: r row_of_short row_of_long) (simp add: row_of_def fix_width_def)
qed

theorem parse_pad_truncate_witness:
  "parse_text_file (Some [''A|B'', ''1'', ''2|3|4'']) None =
     Inr \<lparr>columns = [''A'', ''B''], cells = [[''1'', ''''], [''2'', ''3'']]\<rparr>
   \<and> length (split_fields (nonblank [''A|B'', ''1'', ''2|3|4''] ! Suc 0)) < length [''A'', ''B'']
   \<and> [''1'', ''''] = map clean_field (split_fields (nonblank [''A|B'', ''1'', ''2|3|4''] ! Suc 0))
        @ replicate (length [''A'', ''B''] -
             length (split_fields (nonblank [''A|B'', ''1'', ''2|3|4''] ! Suc 0))) []
   \<and> length [''A'', ''B''] < length (split_fields (nonblank [''A|B'', ''1'', ''2|3|4''] ! Suc 1))
   \<and> [''2'', ''3''] =
        map clean_field (take (length [''A'', ''B''])
          (split_fields (nonblank [''A|B'', ''1'', ''2|3|4''] ! Suc 1)))"
proof -
  have e: "parse_text_file (Some [''A|B'', ''1'', ''2|3|4'']) None =
     Inr \<lparr>columns = [''A'', ''B''], cells = [[''1'', ''''], [''2'', ''3'']]\<rparr>"
    by code_simp
  have s: "length (split_fields (nonblank [''A|B'', ''1'', ''2|3|4''] ! Suc 0)) < length [''A'', ''B'']"
    by code_simp
  have l: "length [''A'', ''B''] < length (split_fields (nonblank [''A|B'', ''1'', ''2|3|4''] ! Suc 1))"
    by code_simp
  have p: "[''1'', ''''] = map clean_field (split_fields (nonblank [''A|B'', ''1'', ''2|3|4''] ! Suc 0))
        @ replicate (length [''A'', ''B''] -
             length (split_fields (nonblank [''A|B'', ''1'', ''2|3|4''] ! Suc 0))) []"
    using parse_pad_truncate [OF e, of 0] s by simp
  have t: "[''2'', ''3''] =
        map clean_field (take (length [''A'', ''B''])
          (split_fields (nonblank [''A|B'', ''1'', ''2|3|4''] ! Suc 1)))"
    using parse_pad_truncate [OF e, of 1] l by simp
  from e s p l t show ?thesis by blast
qed

text \<open>
  Claim C10. With a row limit \<open>k \<ge> 1\<close> the returned table has at most \<open>k - 1\<close> data rows:
  header and data rows together are the first \<open>k\<close> rows of the file, or all of them if
  there are fewer. A limit of 0 gives the same result as no limit.
\<close>

theorem parse_row_cap:
  assumes "parse_text_file f (Some k) = Inr t" and "1 \<le> k"
  shows "int (length (cells t)) \<le> k - 1
     \<and> (\<exists>content. f = Some content
           \<and> Suc (length (cells t)) = min (nat k) (length (nonblank content)))
     \<and> parse_text_file f (Some 0) = parse_text_file f None"
proof -
  from assms(1) obtain content where f: "f = Some content"
    by (cases f) (simp_all add: parse_text_file_def)
  have len: "Suc (length (cells t)) = min (nat k) (length (nonblank content))"
    using parsed_length [OF assms(1) [unfolded f]] assms(2) by simp
  then have "int (length (cells t)) \<le> k - 1" using assms(2) by linarith
  with f len show ?thesis by (simp add: parse_Some_0)
qed

theorem parse_row_cap_witness:
  "parse_text_file (Some [''A|B'', ''1|2'', ''3|4'', ''5|6'']) (Some 2) =
     Inr \<lparr>columns = [''A'', ''B''], cells = [[''1'', ''2'']]\<rparr>
   \<and> (1::int) \<le> 2
   \<and> int (length [[''1'', ''2'']]) \<le> 2 - 1"
proof -
  have e: "parse_text_file (Some [''A|B'', ''1|2'', ''3|4'', ''5|6'']) (Some 2) =
     Inr \<lparr>columns = [''A'', ''B''], cells = [[''1'', ''2'']]\<rparr>"
    by code_simp
  have k: "(1::int) \<le> 2" by simp
  from parse_row_cap [OF e k] have "int (length [[''1'', ''2'']]) \<le> 2 - 1"
    by simp
  with e k show ?thesis by blast
qed

section \<open>Properties of the lookup\<close>

lemma name_loop_fresh: "name_loop base_name used new_col c |\<notin>| used"
proof (induction base_name used new_col c rule: name_loop.induct)
  case (1 base_name used new_col c)
  then show ?case
    by (subst name_loop.simps) simp
qed

lemma name_loop_free: "new_col |\<notin>| used \<Longrightarrow> name_loop base_name used new_col c = new_col"
  by (subst name_loop.simps) simp

lemma name_loop_taken:
  "new_col |\<in>| used \<Longrightarrow>
   \<exists>k\<ge>c. name_loop base_name used new_col c = numbered base_name k
        \<and> (\<forall>j. c \<le> j \<and> j < k \<longrightarrow> numbered base_name j |\<in>| used)"
proof (induction base_name used new_col c rule: name_loop.induct)
  case (1 base_name used new_col c)
  have step: "name_loop base_name used new_col c =
      name_loop base_name used (numbered base_name c) (c + 1)"
    using "1.prems" by (subst name_loop.simps) simp
  show ?case
  proof (cases "numbered base_name c |\<in>| used")
    case True
    from "1.IH" [OF "1.prems" True] obtain k where k: "c + 1 \<le> k"
      "name_loop base_name used (numbered base_name c) (c + 1) = numbered base_name k"
      "\<forall>j. c + 1 \<le> j \<and> j < k \<longrightarrow> numbered base_name j |\<in>| used"
      by blast
    have "\<forall>j. c \<le> j \<and> j < k \<longrightarrow> numbered base_name j |\<in>| used"
    proof (intro allI impI)
      fix j assume "c \<le> j \<and> j < k"
      then consider "j = c" | "c + 1 \<le> j \<and> j < k" by linarith
      then show "numbered base_name j |\<in>| used"
        using True k(3) by cases auto
    qed
    with k(1,2) step show ?thesis
      by (intro exI [of _ k]) simp
  next
    case False
    then have "name_loop base_name used new_col c = numbered base_name c"
      using step by (simp add: name_loop_free)
    then show ?thesis
      by (intro exI [of _ c]) auto
  qed
qed

lemma index_of_None_iff: "index_of x ys = None \<longleftrightarrow> x \<notin> set ys"
  by (induction ys) auto

lemma index_of_Some:
  "index_of x ys = Some i \<Longrightarrow> i < length ys \<and> ys ! i = x"
  by (induction ys arbitrary: i) (auto split: if_splits)

lemma index_of_nth:
  "distinct ys \<Longrightarrow> i < length ys \<Longrightarrow> index_of (ys ! i) ys = Some i"
proof (induction ys arbitrary: i)
  case Nil
  then show ?case by simp
next
  case (Cons y ys)
  then show ?case by (cases i) auto
qed

lemma set_without: "set (without i xs) \<subseteq> set xs"
  by (auto simp: without_def dest: in_set_takeD in_set_dropD)

lemma without_nth_below: "j < i \<Longrightarrow> i < length xs \<Longrightarrow> without i xs ! j = xs ! j"
  by (simp add: without_def nth_append)

lemma without_nth_above:
  assumes "i < j" and "j < length xs"
  shows "without i xs ! (j - Suc 0) = xs ! j"
proof -
  have "length (take i xs) = i" using assms by simp
  moreover have "\<not> j - 1 < i" using assms by simp
  ultimately have "without i xs ! (j - 1) = drop (Suc i) xs ! (j - 1 - i)"
    by (simp add: without_def nth_append)
  also have "\<dots> = xs ! (Suc i + (j - 1 - i))"
    using assms by simp
  also have "Suc i + (j - 1 - i) = j" using assms by simp
  finally show ?thesis by simp
qed

lemma length_without: "i < length xs \<Longrightarrow> length (without i xs) = length xs - 1"
  by (simp add: without_def)

lemma distinct_without: "distinct xs \<Longrightarrow> distinct (without i xs)"
  by (simp add: without_def set_take_disj_set_drop_if_distinct)

lemma index_of_without:
  assumes "distinct ys" and "index_of a ys = Some i" and "index_of b ys = Some j" and "a \<noteq> b"
  shows "index_of b (without i ys) = Some (if j < i then j else j - 1)"
proof -
  from assms(2,3) have i: "i < length ys" "ys ! i = a" and j: "j < length ys" "ys ! j = b"
    by (auto dest: index_of_Some)
  with assms(4) have ne: "i \<noteq> j" by auto
  let ?j = "if j < i then j else j - 1"
  have len: "?j < length (without i ys)"
    using i j ne by (auto simp: length_without)
  have nth: "without i ys ! ?j = b"
    using i j ne by (cases "j < i") (simp_all add: without_nth_below without_nth_above)
  from index_of_nth [OF distinct_without [OF assms(1)] len] nth show ?thesis by simp
qed

lemma nth_without_cell:
  assumes "i < length r" and "j < length r" and "i \<noteq> j"
  shows "without i r ! (if j < i then j else j - 1) = r ! j"
  using assms by (cases "j < i") (simp_all add: without_nth_below without_nth_above)

lemma getitem_Inr_iff:
  "getitem df label = Inr xs \<longleftrightarrow>
     (\<exists>i. index_of label (columns df) = Some i \<and> xs = map (\<lambda>r. r ! i) (cells df))"
  by (auto simp: getitem_def split: option.splits)

lemma getitem_Inl_iff:
  "getitem df label = Inl e \<longleftrightarrow> e = KeyError label \<and> label \<notin> set (columns df)"
  by (auto simp: getitem_def index_of_None_iff [symmetric] split: option.splits)

lemma getitem_length: "getitem df label = Inr xs \<Longrightarrow> length xs = length (cells df)"
  by (auto simp: getitem_Inr_iff)

lemma set_index_Inl_iff:
  "set_index df sk = Inl e \<longleftrightarrow> e = KeyError sk \<and> sk \<notin> set (columns df)"
  by (auto simp: set_index_def index_of_None_iff [symmetric] split: option.splits)

lemma set_index_getitem:
  assumes "table_ok df" and "getitem df sk = Inr keys" and "getitem df so = Inr vals"
    and "sk \<noteq> so"
  shows "\<exists>others. set_index df sk = Inr (keys, others) \<and> getitem others so = Inr vals"
proof -
  from assms(2) obtain i where i: "index_of sk (columns df) = Some i"
    "keys = map (\<lambda>r. r ! i) (cells df)"
    by (auto simp: getitem_Inr_iff)
  from assms(3) obtain j where j: "index_of so (columns df) = Some j"
    "vals = map (\<lambda>r. r ! j) (cells df)"
    by (auto simp: getitem_Inr_iff)
  from i(1) j(1) have lt: "i < length (columns df)" "j < length (columns df)"
    and at: "columns df ! i = sk" "columns df ! j = so"
    by (auto dest: index_of_Some)
  with assms(4) have ne: "i \<noteq> j" by auto
  let ?j = "if j < i then j else j - 1"
  let ?others = "\<lparr>columns = without i (columns df), cells = map (without i) (cells df)\<rparr>"
  have s: "set_index df sk = Inr (keys, ?others)"
    by (simp add: set_index_def i)
  have ix: "index_of so (columns ?others) = Some ?j"
    using index_of_without [OF _ i(1) j(1) assms(4)] assms(1) by (simp add: table_ok_def)
  have "map (\<lambda>r. r ! ?j) (map (without i) (cells df)) = map (\<lambda>r. r ! j) (cells df)"
  proof (rule map_ext [THEN trans [OF map_map], unfolded o_def], rule impI)
    fix r assume "r \<in> set (cells df)"
    then have "length r = length (columns df)"
      using assms(1) by (simp add: table_ok_def)
    with lt ne show "without i r ! ?j = r ! j"
      using nth_without_cell [of i r j] by simp
  qed
  then have "getitem ?others so = Inr vals"
    using ix by (simp add: getitem_def j(2))
  with s show ?thesis by blast
qed

lemma set_index_absent_source:
  assumes "so \<notin> set (columns df)" and "set_index df sk = Inr (keys, others)"
  shows "getitem others so = Inl (KeyError so)"
proof -
  from assms(2) obtain i where "columns others = without i (columns df)"
    by (auto simp: set_index_def split: option.splits)
  with assms(1) set_without [of i "columns df"] have "so \<notin> set (columns others)" by auto
  then show ?thesis by (simp add: getitem_Inl_iff)
qed

lemma setitem_new:
  "label \<notin> set (columns df) \<Longrightarrow>
   setitem df label vals =
     \<lparr>columns = columns df @ [label], cells = map2 (\<lambda>r v. r @ [v]) (cells df) vals\<rparr>"
  by (simp add: setitem_def index_of_None_iff [THEN iffD2])

lemma series_map_length: "series_map arr ms = Inr col \<Longrightarrow> length col = length arr"
  by (auto simp: series_map_def split: if_splits)

lemma series_map_Inl_iff:
  "series_map arr ms = Inl e \<longleftrightarrow> e = InvalidIndexError \<and> \<not> distinct (map fst ms)"
  by (auto simp: series_map_def)

lemma try_rule_used [simp]:
  "try_rule (st\<lparr>used_columns := u\<rparr>) new_col r = try_rule st new_col r"
  by (cases r) (simp add: try_rule_def cong: sum.case_cong prod.case_cong)

lemma rule_step_frame:
  "primary_df (rule_step st ir) = primary_df st"
  "secondary_df (rule_step st ir) = secondary_df st"
  by (auto simp: rule_step_def Let_def split: prod.splits sum.splits)

lemma rule_step_used:
  "used_columns (rule_step st (idx, pk, sk, so)) =
     finsert (name_loop (pk @ ''_FROM_'' @ so) (used_columns st) (pk @ ''_FROM_'' @ so) 2)
       (used_columns st)"
  by (auto simp: rule_step_def Let_def split: sum.splits)

lemma rule_step_Inl:
  "try_rule st (name_loop (pk @ ''_FROM_'' @ so) (used_columns st) (pk @ ''_FROM_'' @ so) 2)
     (pk, sk, so) = Inl e \<Longrightarrow>
   result_df (rule_step st (idx, pk, sk, so)) = result_df st
   \<and> errors (rule_step st (idx, pk, sk, so)) = errors st @ [(idx, (pk, sk, so), e)]"
  by (simp add: rule_step_def Let_def)

lemma rule_step_Inr:
  "try_rule st (name_loop (pk @ ''_FROM_'' @ so) (used_columns st) (pk @ ''_FROM_'' @ so) 2)
     (pk, sk, so) = Inr df \<Longrightarrow>
   result_df (rule_step st (idx, pk, sk, so)) = df
   \<and> errors (rule_step st (idx, pk, sk, so)) = errors st"
  by (simp add: rule_step_def Let_def)

lemma try_rule_Inr:
  assumes "try_rule st new_col (pk, sk, so) = Inr df"
  shows "\<exists>col. length col = length (cells (result_df st))
           \<and> df = setitem (result_df st) new_col col"
  using assms
  by (auto simp: try_rule_def split: sum.splits prod.splits
      dest!: getitem_length series_map_length)

text \<open>What one pass of the loop does to the result, the names in use being a superset of
  the labels of the result.\<close>

lemma rule_step_result:
  fixes st :: lookup_state and pk sk so :: string and idx :: nat
  assumes "set (columns (result_df st)) \<subseteq> fset (used_columns st)"
  defines "n \<equiv> name_loop (pk @ ''_FROM_'' @ so) (used_columns st) (pk @ ''_FROM_'' @ so) 2"
  defines "st' \<equiv> rule_step st (idx, pk, sk, so)"
  shows "(\<exists>e. try_rule st n (pk, sk, so) = Inl e \<and> result_df st' = result_df st
              \<and> errors st' = errors st @ [(idx, (pk, sk, so), e)])
         \<or> (\<exists>col. try_rule st n (pk, sk, so) = Inr (setitem (result_df st) n col)
              \<and> length col = length (cells (result_df st))
              \<and> columns (result_df st') = columns (result_df st) @ [n]
              \<and> cells (result_df st') = map2 (\<lambda>r v. r @ [v]) (cells (result_df st)) col
              \<and> errors st' = errors st)"
proof (cases "try_rule st n (pk, sk, so)")
  case (Inl e)
  then show ?thesis
    using rule_step_Inl [of st pk so sk e idx] by (simp add: n_def st'_def)
next
  case (Inr df)
  from try_rule_Inr [OF Inr] obtain col where col: "length col = length (cells (result_df st))"
    "df = setitem (result_df st) n col" by blast
  have "n |\<notin>| used_columns st" unfolding n_def by (rule name_loop_fresh)
  with assms(1) have "n \<notin> set (columns (result_df st))" by auto
  then have si: "setitem (result_df st) n col = \<lparr>columns = columns (result_df st) @ [n],
                  cells = map2 (\<lambda>r v. r @ [v]) (cells (result_df st)) col\<rparr>"
    by (rule setitem_new)
  have tr: "try_rule st n (pk, sk, so) = Inr (setitem (result_df st) n col)"
    using Inr col(2) by simp
  have st': "result_df st' = setitem (result_df st) n col" "errors st' = errors st"
    using rule_step_Inr [of st pk so sk df idx] Inr col(2) by (simp_all add: n_def st'_def)
  have "columns (result_df st') = columns (result_df st) @ [n]"
    "cells (result_df st') = map2 (\<lambda>r v. r @ [v]) (cells (result_df st)) col"
    unfolding st'(1) si by simp_all
  with tr col(1) st'(2)
  have "try_rule st n (pk, sk, so) = Inr (setitem (result_df st) n col)
      \<and> length col = length (cells (result_df st))
      \<and> columns (result_df st') = columns (result_df st) @ [n]
      \<and> cells (result_df st') = map2 (\<lambda>r v. r @ [v]) (cells (result_df st)) col
      \<and> errors st' = errors st"
    by blast
  then show ?thesis by blast
qed

lemma rule_step_inv:
  assumes "set (columns (result_df st)) \<subseteq> fset (used_columns st)"
  shows "set (columns (result_df (rule_step st (idx, pk, sk, so))))
           \<subseteq> fset (used_columns (rule_step st (idx, pk, sk, so)))"
  using rule_step_result [OF assms, of pk so sk idx] assms
  by (auto simp: rule_step_used)

lemma rule_step_rows:
  assumes "set (columns (result_df st)) \<subseteq> fset (used_columns st)"
  shows "length (cells (result_df (rule_step st (idx, pk, sk, so)))) = length (cells (result_df st))"
    and "prefix (columns (result_df st)) (columns (result_df (rule_step st (idx, pk, sk, so))))"
    and "list_all2 prefix (cells (result_df st)) (cells (result_df (rule_step st (idx, pk, sk, so))))"
proof -
  let ?st' = "rule_step st (idx, pk, sk, so)"
  from rule_step_result [OF assms, of pk so sk idx]
  consider "result_df ?st' = result_df st"
    | col where "length col = length (cells (result_df st))"
        "columns (result_df ?st') = columns (result_df st) @ [name_loop (pk @ ''_FROM_'' @ so) (used_columns st) (pk @ ''_FROM_'' @ so) 2]"
        "cells (result_df ?st') = map2 (\<lambda>r v. r @ [v]) (cells (result_df st)) col"
    by blast
  then have "length (cells (result_df ?st')) = length (cells (result_df st))
     \<and> prefix (columns (result_df st)) (columns (result_df ?st'))
     \<and> list_all2 prefix (cells (result_df st)) (cells (result_df ?st'))"
  proof cases
    case 1
    then show ?thesis by (simp add: list_all2_refl)
  next
    case 2
    then show ?thesis
      by (auto simp: list_all2_conv_all_nth)
  qed
  then show "length (cells (result_df ?st')) = length (cells (result_df st))"
    and "prefix (columns (result_df st)) (columns (result_df ?st'))"
    and "list_all2 prefix (cells (result_df st)) (cells (result_df ?st'))"
    by simp_all
qed

lemma run_lookup_Nil:
  "run_lookup p s [] =
     \<lparr>primary_df = p, secondary_df = s, result_df = df_copy p,
      used_columns = fset_of_list (columns p), errors = []\<rparr>"
  by (simp add: run_lookup_def enumerate_eq_zip)

lemma run_lookup_snoc:
  "run_lookup p s (rules @ [r]) = rule_step (run_lookup p s rules) (Suc (length rules), r)"
  by (simp add: run_lookup_def enumerate_append_eq)

lemma run_lookup_take_Suc:
  "i < length rules \<Longrightarrow>
   run_lookup p s (take (Suc i) rules) =
     rule_step (run_lookup p s (take i rules)) (Suc i, rules ! i)"
  by (simp add: take_Suc_conv_app_nth run_lookup_snoc)

lemma run_lookup_rest:
  "run_lookup p s rules =
     foldl rule_step (run_lookup p s (take k rules)) (enumerate (Suc k) (drop k rules))"
proof (cases "k \<le> length rules")
  case True
  have "enumerate 1 rules = enumerate 1 (take k rules @ drop k rules)" by simp
  also have "\<dots> = enumerate 1 (take k rules) @ enumerate (Suc k) (drop k rules)"
    using True by (simp only: enumerate_append_eq) (simp add: min_def)
  finally show ?thesis by (simp add: run_lookup_def)
next
  case False
  then show ?thesis by (simp add: run_lookup_def enumerate_eq_zip)
qed

lemma run_lookup_frame:
  "primary_df (run_lookup p s rules) = p" "secondary_df (run_lookup p s rules) = s"
  by (induction rules rule: rev_induct)
     (simp_all add: run_lookup_Nil run_lookup_snoc rule_step_frame)

lemma run_lookup_inv:
  "set (columns (result_df (run_lookup p s rules))) \<subseteq> fset (used_columns (run_lookup p s rules))"
proof (induction rules rule: rev_induct)
  case Nil
  show ?case by (simp add: run_lookup_Nil df_copy_def fset_of_list.rep_eq)
next
  case (snoc r rules)
  obtain pk sk so where r: "r = (pk, sk, so)" by (cases r)
  show ?case unfolding run_lookup_snoc r by (rule rule_step_inv [OF snoc])
qed

lemma run_lookup_rows:
  "length (cells (result_df (run_lookup p s rules))) = length (cells p)"
  "prefix (columns p) (columns (result_df (run_lookup p s rules)))"
  "list_all2 (\<lambda>r r'. prefix (map Some r) r') (cells p) (cells (result_df (run_lookup p s rules)))"
proof (induction rules rule: rev_induct)
  case Nil
  show "length (cells (result_df (run_lookup p s []))) = length (cells p)"
    "prefix (columns p) (columns (result_df (run_lookup p s [])))"
    "list_all2 (\<lambda>r r'. prefix (map Some r) r') (cells p) (cells (result_df (run_lookup p s [])))"
    by (simp_all add: run_lookup_Nil df_copy_def list_all2_conv_all_nth)
next
  case (snoc r rules)
  obtain pk sk so where r: "r = (pk, sk, so)" by (cases r)
  note step = rule_step_rows [OF run_lookup_inv, of p s rules "Suc (length rules)" pk sk so]
  show "length (cells (result_df (run_lookup p s (rules @ [r])))) = length (cells p)"
    unfolding run_lookup_snoc r using step(1) snoc(1) by simp
  show "prefix (columns p) (columns (result_df (run_lookup p s (rules @ [r]))))"
    unfolding run_lookup_snoc r using step(2) snoc(2) by (rule prefix_order.trans [rotated])
  have "list_all2 prefix (cells (result_df (run_lookup p s rules)))
          (cells (result_df (rule_step (run_lookup p s rules) (Suc (length rules), pk, sk, so))))"
    by (rule step(3))
  then show "list_all2 (\<lambda>r r'. prefix (map Some r) r') (cells p)
          (cells (result_df (run_lookup p s (rules @ [r]))))"
    unfolding run_lookup_snoc r
    by (rule list_all2_trans [OF _ snoc(3), rotated]) (rule prefix_order.trans)
qed

lemma run_lookup_count:
  "length (columns (result_df (run_lookup p s rules))) + length (errors (run_lookup p s rules))
     = length (columns p) + length rules"
proof (induction rules rule: rev_induct)
  case Nil
  show ?case by (simp add: run_lookup_Nil df_copy_def)
next
  case (snoc r rules)
  obtain pk sk so where r: "r = (pk, sk, so)" by (cases r)
  from rule_step_result [OF run_lookup_inv, of p s rules pk so sk "Suc (length rules)"] snoc
  show ?case unfolding run_lookup_snoc r by auto
qed

lemma run_lookup_used:
  "columns p = columns p' \<Longrightarrow> map name_parts rules = map name_parts rules' \<Longrightarrow>
   used_columns (run_lookup p s rules) = used_columns (run_lookup p' s' rules')"
proof (induction rules arbitrary: rules' rule: rev_induct)
  case Nil
  then show ?case by (simp add: run_lookup_Nil)
next
  case (snoc r rules)
  from snoc.prems(2) obtain r' rs' where rs: "rules' = rs' @ [r']"
    "map name_parts rules = map name_parts rs'" "name_parts r = name_parts r'"
    by (cases rules' rule: rev_cases) auto
  obtain pk sk so where r: "r = (pk, sk, so)" by (cases r)
  obtain pk' sk' so' where r': "r' = (pk', sk', so')" by (cases r')
  from rs(3) have eq: "pk' = pk" "so' = so" by (simp_all add: r r' name_parts_def)
  from snoc.IH [OF snoc.prems(1) rs(2)]
  show ?case unfolding rs(1) run_lookup_snoc r r' eq by (simp add: rule_step_used)
qed

lemma table_ok_df_copy: "table_ok p \<Longrightarrow> table_ok (df_copy p)"
  by (simp add: table_ok_def df_copy_def)

lemma table_ok_append:
  assumes "table_ok df" and "n \<notin> set (columns df)" and "length col = length (cells df)"
  shows "table_ok \<lparr>columns = columns df @ [n], cells = map2 (\<lambda>r v. r @ [v]) (cells df) col\<rparr>"
proof -
  have "length r' = Suc (length (columns df))"
    if "r' \<in> set (map2 (\<lambda>r v. r @ [v]) (cells df) col)" for r'
  proof -
    from that obtain r v where "(r, v) \<in> set (zip (cells df) col)" "r' = r @ [v]" by auto
    then have "r \<in> set (cells df)" "r' = r @ [v]" by (auto dest: set_zip_leftD)
    with assms(1) show ?thesis by (simp add: table_ok_def)
  qed
  with assms(1,2) show ?thesis by (auto simp: table_ok_def)
qed

lemma run_lookup_table_ok:
  assumes "table_ok p"
  shows "table_ok (result_df (run_lookup p s rules))"
proof (induction rules rule: rev_induct)
  case Nil
  show ?case using assms by (simp add: run_lookup_Nil table_ok_df_copy)
next
  case (snoc r rules)
  obtain pk sk so where r: "r = (pk, sk, so)" by (cases r)
  let ?st = "run_lookup p s rules"
  let ?n = "name_loop (pk @ ''_FROM_'' @ so) (used_columns ?st) (pk @ ''_FROM_'' @ so) 2"
  let ?st' = "rule_step ?st (Suc (length rules), pk, sk, so)"
  have "?n |\<notin>| used_columns ?st" by (rule name_loop_fresh)
  with run_lookup_inv [of p s rules] have fresh: "?n \<notin> set (columns (result_df ?st))" by auto
  from rule_step_result [OF run_lookup_inv, of p s rules pk so sk "Suc (length rules)"]
  consider "result_df ?st' = result_df ?st"
    | col where "length col = length (cells (result_df ?st))"
        "columns (result_df ?st') = columns (result_df ?st) @ [?n]"
        "cells (result_df ?st') = map2 (\<lambda>r v. r @ [v]) (cells (result_df ?st)) col"
    by blast
  then have "table_ok (result_df ?st')"
  proof cases
    case 1
    with snoc show ?thesis by simp
  next
    case 2
    have "result_df ?st' = \<lparr>columns = columns (result_df ?st) @ [?n],
            cells = map2 (\<lambda>r v. r @ [v]) (cells (result_df ?st)) col\<rparr>"
      using 2(2,3) by (cases "result_df ?st'") simp
    with table_ok_append [OF snoc fresh 2(1)] show ?thesis by simp
  qed
  then show ?case unfolding run_lookup_snoc r .
qed

text \<open>A rule with a label that is absent from its table raises \<^verbatim>\<open>KeyError\<close>.\<close>

lemma try_rule_absent:
  assumes "pk \<notin> set (columns (result_df st)) \<or> sk \<notin> set (columns (secondary_df st))
           \<or> so \<notin> set (columns (secondary_df st))"
  shows "\<exists>e\<in>{pk, sk, so}. try_rule st new_col (pk, sk, so) = Inl (KeyError e)"
proof (cases "set_index (secondary_df st) sk")
  case (Inl e)
  then have "e = KeyError sk" by (simp add: set_index_Inl_iff)
  with Inl show ?thesis by (simp add: try_rule_def)
next
  case (Inr ko)
  obtain keys others where ko: "ko = (keys, others)" by (cases ko)
  from Inr have sk: "sk \<in> set (columns (secondary_df st))"
    by (auto simp: set_index_def split: option.splits dest: index_of_Some nth_mem)
  show ?thesis
  proof (cases "getitem others so")
    case (Inl e)
    then have "e = KeyError so" by (simp add: getitem_Inl_iff)
    with Inl Inr ko show ?thesis by (simp add: try_rule_def)
  next
    case vals: (Inr vals)
    have "so \<in> set (columns (secondary_df st))"
    proof (rule ccontr)
      assume "so \<notin> set (columns (secondary_df st))"
      from set_index_absent_source [OF this Inr [unfolded ko]] vals show False by simp
    qed
    with sk assms have "pk \<notin> set (columns (result_df st))" by blast
    then have "getitem (result_df st) pk = Inl (KeyError pk)" by (simp add: getitem_Inl_iff)
    with Inr ko vals show ?thesis by (simp add: try_rule_def)
  qed
qed

text \<open>A rule whose labels are all there, the match column not being the return column.\<close>

lemma try_rule_resolved:
  assumes "table_ok (secondary_df st)"
    and "getitem (secondary_df st) sk = Inr keys" and "getitem (secondary_df st) so = Inr vals"
    and "sk \<noteq> so" and "getitem (result_df st) pk = Inr arr"
  shows "try_rule st new_col (pk, sk, so) =
           (if distinct keys
            then Inr (setitem (result_df st) new_col
                   (map (\<lambda>v. case v of None \<Rightarrow> None | Some k \<Rightarrow> map_of (zip keys vals) k) arr))
            else Inl InvalidIndexError)"
proof -
  from set_index_getitem [OF assms(1-4)] obtain others where
    o: "set_index (secondary_df st) sk = Inr (keys, others)" "getitem others so = Inr vals"
    by blast
  have "length keys = length vals"
    using getitem_length [OF assms(2)] getitem_length [OF assms(3)] by simp
  then have "map fst (zip keys vals) = keys" by simp
  then show ?thesis
    using o assms(5) by (simp add: try_rule_def series_map_def)
qed

lemma run_lookup_step_used:
  assumes "i < length rules" and "rules ! i = (pk, sk, so)"
  shows "used_columns (run_lookup p s (take (Suc i) rules)) =
           finsert (name_loop (pk @ ''_FROM_'' @ so) (used_columns (run_lookup p s (take i rules)))
                      (pk @ ''_FROM_'' @ so) 2)
             (used_columns (run_lookup p s (take i rules)))"
  using assms by (simp add: run_lookup_take_Suc rule_step_used)

lemma run_lookup_used_mono:
  "a \<le> b \<Longrightarrow>
   used_columns (run_lookup p s (take a rules)) |\<subseteq>| used_columns (run_lookup p s (take b rules))"
proof (induction b)
  case 0
  then show ?case by simp
next
  case (Suc b)
  show ?case
  proof (cases "a = Suc b")
    case True
    then show ?thesis by simp
  next
    case False
    with Suc have ab: "used_columns (run_lookup p s (take a rules))
        |\<subseteq>| used_columns (run_lookup p s (take b rules))" by simp
    show ?thesis
    proof (cases "b < length rules")
      case True
      obtain pk sk so where "rules ! b = (pk, sk, so)" by (cases "rules ! b")
      from run_lookup_step_used [OF True this] ab show ?thesis by auto
    next
      case False
      then have "take (Suc b) rules = take b rules" by simp
      with ab show ?thesis by simp
    qed
  qed
qed

lemma run_lookup_used_primary:
  "set (columns p) \<subseteq> fset (used_columns (run_lookup p s rules))"
proof -
  have "used_columns (run_lookup p s (take 0 rules))
      |\<subseteq>| used_columns (run_lookup p s (take (length rules) rules))"
    by (rule run_lookup_used_mono) simp
  then show ?thesis
    by (auto simp: run_lookup_Nil fset_of_list.rep_eq less_eq_fset.rep_eq)
qed

lemma str_nat_2: "str_nat 2 = ''2''"
  by code_simp

lemma name_loop_second:
  assumes "b |\<in>| used" and "b @ ''_2'' |\<notin>| used"
  shows "name_loop b used b 2 = b @ ''_2''"
proof -
  have "name_loop b used b 2 = name_loop b used (numbered b 2) (2 + 1)"
    using assms(1) by (subst name_loop.simps) simp
  also have "numbered b 2 = b @ ''_2''" by (simp add: numbered_def str_nat_2)
  finally show ?thesis using assms(2) by (simp add: name_loop_free)
qed

lemma run_lookup_two:
  "run_lookup p s [r1, r2] =
     rule_step (rule_step (run_lookup p s []) (Suc 0, r1)) (Suc (Suc 0), r2)"
  using run_lookup_snoc [of p s "[r1]" r2] run_lookup_snoc [of p s "[]" r1] by simp

lemma example_tables_ok:
  "table_ok example_primary" "table_ok example_secondary" "table_ok example_repeated"
  by (simp_all add: table_ok_def example_primary_def example_secondary_def example_repeated_def)

subsection \<open>The claims about the lookup\<close>

text \<open>
  Claim C2, as stated: with two secondary rows of the same key the later row's value
  reaches the result. On a primary table with the key 2 and the secondary table that has
  the key 2 twice, the rule adds no column at all: the result is the copy of the primary
  table and the rule is reported as failed.
\<close>

theorem duplicate_key_fails_counterexample:
  "result_df (run_lookup \<lparr>columns = [''ID''], cells = [[''2'']]\<rparr>
      \<lparr>columns = [''ID'', ''NAME''], cells = [[''2'', ''x''], [''2'', ''y'']]\<rparr>
      [(''ID'', ''ID'', ''NAME'')])
     = \<lparr>columns = [''ID''], cells = [[Some ''2'']]\<rparr>
   \<and> errors (run_lookup \<lparr>columns = [''ID''], cells = [[''2'']]\<rparr>
      \<lparr>columns = [''ID'', ''NAME''], cells = [[''2'', ''x''], [''2'', ''y'']]\<rparr>
      [(''ID'', ''ID'', ''NAME'')])
     = [(1, (''ID'', ''ID'', ''NAME''), InvalidIndexError)]"
  by code_simp

text \<open>
  Claim C2, amended. For a rule whose columns resolve (the match column not being the
  return column): when the secondary match column holds a value twice, the rule raises,
  an error is recorded for it and the result is left as it was; there is no
  last-key-wins. When every key occurs once, a row whose key is the key of a secondary
  row gets that row's return value in the new cell.
\<close>

theorem duplicate_keys_rule_fails:
  fixes p s :: "string dataframe" and rules :: "rule list"
  assumes "table_ok p" and "table_ok s"
    and "i < length rules" and "rules ! i = (pk, sk, so)"
    and "getitem (result_df (run_lookup p s (take i rules))) pk = Inr arr"
    and "getitem s sk = Inr keys" and "getitem s so = Inr vals" and "sk \<noteq> so"
  shows "(\<not> distinct keys \<longrightarrow>
            result_df (run_lookup p s (take (Suc i) rules)) = result_df (run_lookup p s (take i rules))
          \<and> errors (run_lookup p s (take (Suc i) rules)) =
              errors (run_lookup p s (take i rules)) @ [(Suc i, (pk, sk, so), InvalidIndexError)])
       \<and> (distinct keys \<longrightarrow>
            errors (run_lookup p s (take (Suc i) rules)) = errors (run_lookup p s (take i rules))
          \<and> (\<forall>j m. j < length arr \<and> m < length keys \<and> arr ! j = Some (keys ! m) \<longrightarrow>
                cells (result_df (run_lookup p s (take (Suc i) rules))) ! j =
                  cells (result_df (run_lookup p s (take i rules))) ! j @ [Some (vals ! m)]))"
proof -
  define st where "st = run_lookup p s (take i rules)"
  define n where "n = name_loop (pk @ ''_FROM_'' @ so) (used_columns st) (pk @ ''_FROM_'' @ so) 2"
  define f where "f = (\<lambda>v. case v of None \<Rightarrow> None | Some k \<Rightarrow> map_of (zip keys vals) k)"
  have st': "run_lookup p s (take (Suc i) rules) = rule_step st (Suc i, pk, sk, so)"
    using assms(3,4) by (simp add: run_lookup_take_Suc st_def)
  have sec: "secondary_df st = s" by (simp add: st_def run_lookup_frame)
  have inv: "set (columns (result_df st)) \<subseteq> fset (used_columns st)"
    unfolding st_def by (rule run_lookup_inv)
  have len: "length keys = length vals" "length arr = length (cells (result_df st))"
    using getitem_length [OF assms(6)] getitem_length [OF assms(7)]
      getitem_length [OF assms(5)] by (simp_all add: st_def)
  have tr: "try_rule st n (pk, sk, so) =
      (if distinct keys then Inr (setitem (result_df st) n (map f arr)) else Inl InvalidIndexError)"
    unfolding f_def
    by (rule try_rule_resolved) (use assms in \<open>simp_all add: sec st_def [symmetric]\<close>)
  note step = rule_step_result [OF inv, of pk so sk "Suc i", folded n_def]
  show ?thesis
  proof (cases "distinct keys")
    case False
    with tr step show ?thesis by (auto simp: st' st_def [symmetric])
  next
    case True
    with tr step obtain col where col:
      "setitem (result_df st) n col = setitem (result_df st) n (map f arr)"
      "length col = length (cells (result_df st))"
      "cells (result_df (rule_step st (Suc i, pk, sk, so))) =
          map2 (\<lambda>r v. r @ [v]) (cells (result_df st)) col"
      "errors (rule_step st (Suc i, pk, sk, so)) = errors st"
      by auto
    have "n |\<notin>| used_columns st" unfolding n_def by (rule name_loop_fresh)
    with inv have "n \<notin> set (columns (result_df st))" by auto
    from col(1) [unfolded setitem_new [OF this]]
    have "map2 (\<lambda>r v. r @ [v]) (cells (result_df st)) col =
          map2 (\<lambda>r v. r @ [v]) (cells (result_df st)) (map f arr)" by simp
    with col(3) have cells: "cells (result_df (rule_step st (Suc i, pk, sk, so))) =
          map2 (\<lambda>r v. r @ [v]) (cells (result_df st)) (map f arr)" by simp
    have "cells (result_df (rule_step st (Suc i, pk, sk, so))) ! j =
            cells (result_df st) ! j @ [Some (vals ! m)]"
      if "j < length arr" "m < length keys" "arr ! j = Some (keys ! m)" for j m
    proof -
      have "map_of (zip keys vals) (keys ! m) = Some (vals ! m)"
        using True that(2) len(1) by (simp add: map_of_zip_nth)
      then have "f (arr ! j) = Some (vals ! m)" by (simp add: f_def that(3))
      then show ?thesis using that(1) len(2) by (simp add: cells)
    qed
    with True col(4) show ?thesis by (simp add: st' st_def [symmetric])
  qed
qed

theorem duplicate_keys_rule_fails_witness:
  "\<not> distinct [''2'', ''2'']
   \<and> result_df (run_lookup example_primary example_repeated (take (Suc 0) [(''ID'', ''ID'', ''NAME'')]))
       = result_df (run_lookup example_primary example_repeated (take 0 [(''ID'', ''ID'', ''NAME'')]))
   \<and> errors (run_lookup example_primary example_repeated (take (Suc 0) [(''ID'', ''ID'', ''NAME'')]))
       = errors (run_lookup example_primary example_repeated (take 0 [(''ID'', ''ID'', ''NAME'')]))
           @ [(Suc 0, (''ID'', ''ID'', ''NAME''), InvalidIndexError)]
   \<and> distinct [''2'', ''3'']
   \<and> cells (result_df (run_lookup example_primary example_secondary
         (take (Suc 0) [(''ID'', ''ID'', ''NAME'')]))) ! 1
       = cells (result_df (run_lookup example_primary example_secondary
           (take 0 [(''ID'', ''ID'', ''NAME'')]))) ! 1 @ [Some ([''x'', ''y''] ! 0)]"
proof -
  have i: "0 < length [(''ID'', ''ID'', ''NAME'')]"
    and r: "[(''ID'', ''ID'', ''NAME'')] ! 0 = (''ID'', ''ID'', ''NAME'')"
    and ne: "''ID'' \<noteq> ''NAME''"
    by simp_all
  have arr1: "getitem (result_df (run_lookup example_primary example_repeated
        (take 0 [(''ID'', ''ID'', ''NAME'')]))) ''ID'' = Inr [Some ''1'', Some ''2'', Some ''3'']"
    by code_simp
  have arr2: "getitem (result_df (run_lookup example_primary example_secondary
        (take 0 [(''ID'', ''ID'', ''NAME'')]))) ''ID'' = Inr [Some ''1'', Some ''2'', Some ''3'']"
    by code_simp
  have k1: "getitem example_repeated ''ID'' = Inr [''2'', ''2'']"
    and v1: "getitem example_repeated ''NAME'' = Inr [''x'', ''y'']"
    and k2: "getitem example_secondary ''ID'' = Inr [''2'', ''3'']"
    and v2: "getitem example_secondary ''NAME'' = Inr [''x'', ''y'']"
    by code_simp+
  have d1: "\<not> distinct [''2'', ''2'']" and d2: "distinct [''2'', ''3'']" by simp_all
  note t1 = duplicate_keys_rule_fails [OF example_tables_ok(1,3) i r arr1 k1 v1 ne,
      THEN conjunct1, rule_format, OF d1]
  note t2 = duplicate_keys_rule_fails [OF example_tables_ok(1,2) i r arr2 k2 v2 ne,
      THEN conjunct2, rule_format, OF d2, THEN conjunct2, rule_format, of 1 0]
  have "cells (result_df (run_lookup example_primary example_secondary
         (take (Suc 0) [(''ID'', ''ID'', ''NAME'')]))) ! 1
       = cells (result_df (run_lookup example_primary example_secondary
           (take 0 [(''ID'', ''ID'', ''NAME'')]))) ! 1 @ [Some ([''x'', ''y''] ! 0)]"
    by (rule t2) simp
  with t1 d1 d2 show ?thesis by blast
qed

text \<open>
  Claim C5. For tables with distinct labels and any rules, the result has as many rows
  as the primary table and in the same order: its labels begin with the primary labels
  and each of its rows begins with the cells of the primary row at the same position.
  The two input tables are the same after the run, and the result is again a table.
\<close>

theorem lookup_keeps_primary:
  fixes p s :: "string dataframe" and rules :: "rule list"
  assumes "table_ok p" and "table_ok s"
  shows "length (cells (result_df (run_lookup p s rules))) = length (cells p)
       \<and> prefix (columns p) (columns (result_df (run_lookup p s rules)))
       \<and> list_all2 (\<lambda>r r'. prefix (map Some r) r') (cells p)
            (cells (result_df (run_lookup p s rules)))
       \<and> primary_df (run_lookup p s rules) = p
       \<and> secondary_df (run_lookup p s rules) = s
       \<and> table_ok (result_df (run_lookup p s rules))"
  using run_lookup_rows [of p s rules] run_lookup_frame [of p s rules]
    run_lookup_table_ok [OF assms(1), of s rules]
  by simp

theorem lookup_keeps_primary_witness:
  "table_ok example_primary \<and> table_ok example_secondary
   \<and> length (cells (result_df (run_lookup example_primary example_secondary
        [(''ID'', ''ID'', ''NAME'')]))) = length (cells example_primary)
   \<and> primary_df (run_lookup example_primary example_secondary [(''ID'', ''ID'', ''NAME'')])
        = example_primary
   \<and> secondary_df (run_lookup example_primary example_secondary [(''ID'', ''ID'', ''NAME'')])
        = example_secondary
   \<and> result_df (run_lookup example_primary example_secondary [(''ID'', ''ID'', ''NAME'')])
        = \<lparr>columns = [''ID'', ''ID_FROM_NAME''],
           cells = [[Some ''1'', None], [Some ''2'', Some ''x''], [Some ''3'', Some ''y'']]\<rparr>"
proof -
  note t = lookup_keeps_primary [OF example_tables_ok(1,2), of "[(''ID'', ''ID'', ''NAME'')]"]
  have "result_df (run_lookup example_primary example_secondary [(''ID'', ''ID'', ''NAME'')])
        = \<lparr>columns = [''ID'', ''ID_FROM_NAME''],
           cells = [[Some ''1'', None], [Some ''2'', Some ''x''], [Some ''3'', Some ''y'']]\<rparr>"
    by code_simp
  with t example_tables_ok(1,2) show ?thesis by blast
qed

text \<open>
  Claim C6, as stated: a rule whose columns resolve gives an absent cell for a key that
  is not in the secondary match column. The columns ID and NAME resolve and the key 1 is
  not among the secondary keys 2, 2, yet the result has no new column: the repeated key
  makes the rule fail. So does a rule that matches on and returns the same column ID of
  a secondary table with the keys 2, 3: the column has left the frame when it is asked
  for.
\<close>

theorem missing_key_no_column_counterexample:
  "result_df (run_lookup \<lparr>columns = [''ID''], cells = [[''1'']]\<rparr>
      \<lparr>columns = [''ID'', ''NAME''], cells = [[''2'', ''x''], [''2'', ''y'']]\<rparr>
      [(''ID'', ''ID'', ''NAME'')])
     = \<lparr>columns = [''ID''], cells = [[Some ''1'']]\<rparr>
   \<and> getitem \<lparr>columns = [''ID''], cells = [[''1'']]\<rparr> ''ID'' = Inr [''1'']
   \<and> getitem \<lparr>columns = [''ID'', ''NAME''], cells = [[''2'', ''x''], [''2'', ''y'']]\<rparr> ''ID''
       = Inr [''2'', ''2'']
   \<and> getitem \<lparr>columns = [''ID'', ''NAME''], cells = [[''2'', ''x''], [''2'', ''y'']]\<rparr> ''NAME''
       = Inr [''x'', ''y'']
   \<and> ''1'' \<notin> set [''2'', ''2'']
   \<and> result_df (run_lookup \<lparr>columns = [''ID''], cells = [[''1'']]\<rparr>
      \<lparr>columns = [''ID'', ''NAME''], cells = [[''2'', ''x''], [''3'', ''y'']]\<rparr>
      [(''ID'', ''ID'', ''ID'')])
     = \<lparr>columns = [''ID''], cells = [[Some ''1'']]\<rparr>
   \<and> errors (run_lookup \<lparr>columns = [''ID''], cells = [[''1'']]\<rparr>
      \<lparr>columns = [''ID'', ''NAME''], cells = [[''2'', ''x''], [''3'', ''y'']]\<rparr>
      [(''ID'', ''ID'', ''ID'')])
     = [(1, (''ID'', ''ID'', ''ID''), KeyError ''ID'')]"
  by code_simp

text \<open>
  Claim C6, amended. For a rule whose columns resolve, whose match column is not its
  return column and holds no value twice: a row whose key cell is not among the
  secondary keys gets the absent cell in the rule's new column, no error is recorded for
  the rule, and the run returns a result with the rows of the primary table.
\<close>

theorem missing_key_absent:
  fixes p s :: "string dataframe" and rules :: "rule list"
  assumes "table_ok p" and "table_ok s"
    and "i < length rules" and "rules ! i = (pk, sk, so)"
    and "getitem (result_df (run_lookup p s (take i rules))) pk = Inr arr"
    and "getitem s sk = Inr keys" and "getitem s so = Inr vals"
    and "sk \<noteq> so" and "distinct keys"
    and "j < length arr" and "arr ! j \<notin> Some ` set keys"
  shows "(\<exists>n. columns (result_df (run_lookup p s (take (Suc i) rules))) =
               columns (result_df (run_lookup p s (take i rules))) @ [n])
       \<and> cells (result_df (run_lookup p s (take (Suc i) rules))) ! j =
           cells (result_df (run_lookup p s (take i rules))) ! j @ [None]
       \<and> errors (run_lookup p s (take (Suc i) rules)) = errors (run_lookup p s (take i rules))
       \<and> length (cells (result_df (run_lookup p s rules))) = length (cells p)"
proof -
  define st where "st = run_lookup p s (take i rules)"
  define n where "n = name_loop (pk @ ''_FROM_'' @ so) (used_columns st) (pk @ ''_FROM_'' @ so) 2"
  define f where "f = (\<lambda>v. case v of None \<Rightarrow> None | Some k \<Rightarrow> map_of (zip keys vals) k)"
  have st': "run_lookup p s (take (Suc i) rules) = rule_step st (Suc i, pk, sk, so)"
    using assms(3,4) by (simp add: run_lookup_take_Suc st_def)
  have sec: "secondary_df st = s" by (simp add: st_def run_lookup_frame)
  have inv: "set (columns (result_df st)) \<subseteq> fset (used_columns st)"
    unfolding st_def by (rule run_lookup_inv)
  have len: "length keys = length vals" "length arr = length (cells (result_df st))"
    using getitem_length [OF assms(6)] getitem_length [OF assms(7)]
      getitem_length [OF assms(5)] by (simp_all add: st_def)
  have tr: "try_rule st n (pk, sk, so) = Inr (setitem (result_df st) n (map f arr))"
    using try_rule_resolved [of st sk keys so vals pk arr n] assms
    by (simp add: sec st_def [symmetric] f_def)
  note step = rule_step_result [OF inv, of pk so sk "Suc i", folded n_def]
  with tr obtain col where col:
      "setitem (result_df st) n col = setitem (result_df st) n (map f arr)"
      "columns (result_df (rule_step st (Suc i, pk, sk, so))) = columns (result_df st) @ [n]"
      "cells (result_df (rule_step st (Suc i, pk, sk, so))) =
          map2 (\<lambda>r v. r @ [v]) (cells (result_df st)) col"
      "errors (rule_step st (Suc i, pk, sk, so)) = errors st"
    by auto
  have "n |\<notin>| used_columns st" unfolding n_def by (rule name_loop_fresh)
  with inv have "n \<notin> set (columns (result_df st))" by auto
  from col(1) [unfolded setitem_new [OF this]]
  have "map2 (\<lambda>r v. r @ [v]) (cells (result_df st)) col =
        map2 (\<lambda>r v. r @ [v]) (cells (result_df st)) (map f arr)" by simp
  with col(3) have cells: "cells (result_df (rule_step st (Suc i, pk, sk, so))) =
        map2 (\<lambda>r v. r @ [v]) (cells (result_df st)) (map f arr)" by simp
  have "f (arr ! j) = None"
  proof (cases "arr ! j")
    case None
    then show ?thesis by (simp add: f_def)
  next
    case (Some k)
    with assms(11) have "k \<notin> set keys" by auto
    then have "map_of (zip keys vals) k = None"
      using len(1) by (simp add: map_of_zip_is_None)
    with Some show ?thesis by (simp add: f_def)
  qed
  then have "cells (result_df (rule_step st (Suc i, pk, sk, so))) ! j =
      cells (result_df st) ! j @ [None]"
    using assms(10) len(2) by (simp add: cells)
  with col(2,4) run_lookup_rows(1) [of p s rules] show ?thesis
    by (simp add: st' st_def [symmetric])
qed

theorem missing_key_absent_witness:
  "getitem (result_df (run_lookup example_primary example_secondary
        (take 0 [(''ID'', ''ID'', ''NAME'')]))) ''ID'' = Inr [Some ''1'', Some ''2'', Some ''3'']
   \<and> getitem example_secondary ''ID'' = Inr [''2'', ''3'']
   \<and> getitem example_secondary ''NAME'' = Inr [''x'', ''y'']
   \<and> [Some ''1'', Some ''2'', Some ''3''] ! 0 \<notin> Some ` set [''2'', ''3'']
   \<and> cells (result_df (run_lookup example_primary example_secondary
         (take (Suc 0) [(''ID'', ''ID'', ''NAME'')]))) ! 0
       = cells (result_df (run_lookup example_primary example_secondary
           (take 0 [(''ID'', ''ID'', ''NAME'')]))) ! 0 @ [None]
   \<and> errors (run_lookup example_primary example_secondary (take (Suc 0) [(''ID'', ''ID'', ''NAME'')]))
       = errors (run_lookup example_primary example_secondary (take 0 [(''ID'', ''ID'', ''NAME'')]))"
proof -
  have i: "0 < length [(''ID'', ''ID'', ''NAME'')]"
    and r: "[(''ID'', ''ID'', ''NAME'')] ! 0 = (''ID'', ''ID'', ''NAME'')"
    and ne: "''ID'' \<noteq> ''NAME''"
    by simp_all
  have arr: "getitem (result_df (run_lookup example_primary example_secondary
        (take 0 [(''ID'', ''ID'', ''NAME'')]))) ''ID'' = Inr [Some ''1'', Some ''2'', Some ''3'']"
    by code_simp
  have k: "getitem example_secondary ''ID'' = Inr [''2'', ''3'']"
    and v: "getitem example_secondary ''NAME'' = Inr [''x'', ''y'']"
    by code_simp+
  have d: "distinct [''2'', ''3'']"
    and j: "0 < length [Some ''1'', Some ''2'', Some ''3'']"
    and m: "[Some ''1'', Some ''2'', Some ''3''] ! 0 \<notin> Some ` set [''2'', ''3'']"
    by simp_all
  note t = missing_key_absent [OF example_tables_ok(1,2) i r arr k v ne d j m]
  from t arr k v m show ?thesis by blast
qed

text \<open>
  Claim C7. When a label of rule number \<open>i + 1\<close> is absent from its table, the rule
  leaves the result as it was and records one error, a \<^verbatim>\<open>KeyError\<close> of one of its three
  labels; the rules after it are run from that state; and over the whole run every rule
  has either added one column or recorded one error.
\<close>

theorem missing_column_isolated:
  fixes p s :: "string dataframe" and rules :: "rule list"
  assumes "table_ok p" and "table_ok s"
    and "i < length rules" and "rules ! i = (pk, sk, so)"
    and "pk \<notin> set (columns (result_df (run_lookup p s (take i rules))))
         \<or> sk \<notin> set (columns s) \<or> so \<notin> set (columns s)"
  shows "result_df (run_lookup p s (take (Suc i) rules)) = result_df (run_lookup p s (take i rules))
       \<and> (\<exists>e\<in>{pk, sk, so}. errors (run_lookup p s (take (Suc i) rules)) =
             errors (run_lookup p s (take i rules)) @ [(Suc i, (pk, sk, so), KeyError e)])
       \<and> run_lookup p s rules =
           foldl rule_step (run_lookup p s (take (Suc i) rules))
             (enumerate (Suc (Suc i)) (drop (Suc i) rules))
       \<and> length (columns (result_df (run_lookup p s rules))) + length (errors (run_lookup p s rules))
           = length (columns p) + length rules"
proof -
  define st where "st = run_lookup p s (take i rules)"
  define n where "n = name_loop (pk @ ''_FROM_'' @ so) (used_columns st) (pk @ ''_FROM_'' @ so) 2"
  have st': "run_lookup p s (take (Suc i) rules) = rule_step st (Suc i, pk, sk, so)"
    using assms(3,4) by (simp add: run_lookup_take_Suc st_def)
  have sec: "secondary_df st = s" by (simp add: st_def run_lookup_frame)
  from try_rule_absent [of pk st sk so n] assms(5)
  obtain e where e: "e \<in> {pk, sk, so}" "try_rule st n (pk, sk, so) = Inl (KeyError e)"
    by (auto simp: sec st_def [symmetric])
  from rule_step_Inl [OF e(2) [unfolded n_def], of "Suc i"]
  have "result_df (rule_step st (Suc i, pk, sk, so)) = result_df st"
    "errors (rule_step st (Suc i, pk, sk, so)) = errors st @ [(Suc i, (pk, sk, so), KeyError e)]"
    by simp_all
  with e(1) show ?thesis
    using run_lookup_rest [of p s rules "Suc i"] run_lookup_count [of p s rules]
    unfolding st' st_def [symmetric] by blast
qed

theorem missing_column_isolated_witness:
  "''CODE'' \<notin> set (columns example_secondary)
   \<and> result_df (run_lookup example_primary example_secondary
        (take (Suc 1) [(''ID'', ''ID'', ''NAME''), (''ID'', ''CODE'', ''NAME''), (''ID'', ''ID'', ''NAME'')]))
     = result_df (run_lookup example_primary example_secondary
        (take 1 [(''ID'', ''ID'', ''NAME''), (''ID'', ''CODE'', ''NAME''), (''ID'', ''ID'', ''NAME'')]))
   \<and> errors (run_lookup example_primary example_secondary
        [(''ID'', ''ID'', ''NAME''), (''ID'', ''CODE'', ''NAME''), (''ID'', ''ID'', ''NAME'')])
     = [(2, (''ID'', ''CODE'', ''NAME''), KeyError ''CODE'')]
   \<and> result_df (run_lookup example_primary example_secondary
        [(''ID'', ''ID'', ''NAME''), (''ID'', ''CODE'', ''NAME''), (''ID'', ''ID'', ''NAME'')])
     = \<lparr>columns = [''ID'', ''ID_FROM_NAME'', ''ID_FROM_NAME_3''],
        cells = [[Some ''1'', None, None], [Some ''2'', Some ''x'', Some ''x''],
                 [Some ''3'', Some ''y'', Some ''y'']]\<rparr>"
proof -
  let ?rules = "[(''ID'', ''ID'', ''NAME''), (''ID'', ''CODE'', ''NAME''), (''ID'', ''ID'', ''NAME'')]"
  have i: "1 < length ?rules" and r: "?rules ! 1 = (''ID'', ''CODE'', ''NAME'')"
    by simp_all
  have c: "''CODE'' \<notin> set (columns example_secondary)"
    by (simp add: example_secondary_def)
  then have h: "''ID'' \<notin> set (columns (result_df (run_lookup example_primary example_secondary
        (take 1 ?rules)))) \<or> ''CODE'' \<notin> set (columns example_secondary)
      \<or> ''NAME'' \<notin> set (columns example_secondary)"
    by blast
  note t = missing_column_isolated [OF example_tables_ok(1,2) i r h, THEN conjunct1]
  have e: "errors (run_lookup example_primary example_secondary ?rules)
     = [(2, (''ID'', ''CODE'', ''NAME''), KeyError ''CODE'')]"
    by code_simp
  have f: "result_df (run_lookup example_primary example_secondary ?rules)
     = \<lparr>columns = [''ID'', ''ID_FROM_NAME'', ''ID_FROM_NAME_3''],
        cells = [[Some ''1'', None, None], [Some ''2'', Some ''x'', Some ''x''],
                 [Some ''3'', Some ''y'', Some ''y'']]\<rparr>"
    by code_simp
  from c t e f show ?thesis by blast
qed

text \<open>
  Claim C8. The name chosen for rule number \<open>i + 1\<close> is not among the names in use
  (the primary labels and the names of the earlier rules); it is the base name if that is
  free, otherwise the base name with the least suffix from 2 on that is free; it is added
  to the names in use whether or not the rule succeeds, and it is the label of the new
  column if the rule succeeds. The names in use after a run depend only on the primary
  labels and on the primary and return labels of the rules, in order. Two rules with the
  same pair X, Y on a table with neither name yield X_FROM_Y and X_FROM_Y_2.
\<close>

theorem collision_naming:
  fixes p s :: "string dataframe" and rules :: "rule list"
  assumes "table_ok p" and "table_ok s"
    and "i < length rules" and "rules ! i = (pk, sk, so)"
  shows "\<exists>n. used_columns (run_lookup p s (take (Suc i) rules)) =
               finsert n (used_columns (run_lookup p s (take i rules)))
       \<and> n |\<notin>| used_columns (run_lookup p s (take i rules))
       \<and> (if pk @ ''_FROM_'' @ so |\<in>| used_columns (run_lookup p s (take i rules))
          then \<exists>k\<ge>2. n = (pk @ ''_FROM_'' @ so) @ ''_'' @ str_nat k
                 \<and> (\<forall>j. 2 \<le> j \<and> j < k \<longrightarrow>
                      (pk @ ''_FROM_'' @ so) @ ''_'' @ str_nat j
                        |\<in>| used_columns (run_lookup p s (take i rules)))
          else n = pk @ ''_FROM_'' @ so)
       \<and> (columns (result_df (run_lookup p s (take (Suc i) rules))) =
            columns (result_df (run_lookup p s (take i rules))) @ [n]
          \<or> result_df (run_lookup p s (take (Suc i) rules)) =
            result_df (run_lookup p s (take i rules)))
       \<and> set (columns p) \<subseteq> fset (used_columns (run_lookup p s (take i rules)))
       \<and> (\<forall>m<i. used_columns (run_lookup p s (take (Suc m) rules))
                   |\<subseteq>| used_columns (run_lookup p s (take i rules)))
       \<and> (\<forall>p' s' rules'. columns p' = columns p \<and> map name_parts rules' = map name_parts rules
              \<longrightarrow> used_columns (run_lookup p' s' rules') = used_columns (run_lookup p s rules))
       \<and> (\<forall>X Y k1 k2. X @ ''_FROM_'' @ Y \<notin> set (columns p)
              \<and> (X @ ''_FROM_'' @ Y) @ ''_2'' \<notin> set (columns p)
              \<longrightarrow> used_columns (run_lookup p s [(X, k1, Y), (X, k2, Y)]) =
                    finsert ((X @ ''_FROM_'' @ Y) @ ''_2'')
                      (finsert (X @ ''_FROM_'' @ Y) (fset_of_list (columns p))))"
proof -
  let ?st = "run_lookup p s (take i rules)"
  let ?st' = "run_lookup p s (take (Suc i) rules)"
  let ?b = "pk @ ''_FROM_'' @ so"
  define n where "n = name_loop ?b (used_columns ?st) ?b 2"
  have st': "?st' = rule_step ?st (Suc i, pk, sk, so)"
    using assms(3,4) by (simp add: run_lookup_take_Suc)
  have inv: "set (columns (result_df ?st)) \<subseteq> fset (used_columns ?st)"
    by (rule run_lookup_inv)
  have 1: "used_columns ?st' = finsert n (used_columns ?st)"
    unfolding n_def by (rule run_lookup_step_used [OF assms(3,4)])
  have 2: "n |\<notin>| used_columns ?st" unfolding n_def by (rule name_loop_fresh)
  have 3: "if ?b |\<in>| used_columns ?st
      then \<exists>k\<ge>2. n = ?b @ ''_'' @ str_nat k
             \<and> (\<forall>j. 2 \<le> j \<and> j < k \<longrightarrow> ?b @ ''_'' @ str_nat j |\<in>| used_columns ?st)
      else n = ?b"
  proof (cases "?b |\<in>| used_columns ?st")
    case True
    from name_loop_taken [OF True, of 2 ?b]
    have "\<exists>k\<ge>2. n = ?b @ ''_'' @ str_nat k
             \<and> (\<forall>j. 2 \<le> j \<and> j < k \<longrightarrow> ?b @ ''_'' @ str_nat j |\<in>| used_columns ?st)"
      unfolding n_def numbered_def .
    with True show ?thesis by (simp only: if_True)
  next
    case False
    then have "n = ?b" unfolding n_def by (rule name_loop_free)
    with False show ?thesis by (simp only: if_False)
  qed
  have 4: "columns (result_df ?st') = columns (result_df ?st) @ [n]
      \<or> result_df ?st' = result_df ?st"
  proof -
    from rule_step_result [OF inv, of pk so sk "Suc i", folded n_def st']
    show ?thesis by blast
  qed
  have 5: "set (columns p) \<subseteq> fset (used_columns ?st)"
    by (rule run_lookup_used_primary)
  have 6: "\<forall>m<i. used_columns (run_lookup p s (take (Suc m) rules)) |\<subseteq>| used_columns ?st"
    by (intro allI impI run_lookup_used_mono) simp
  have 7: "\<forall>p' s' rules'. columns p' = columns p \<and> map name_parts rules' = map name_parts rules
              \<longrightarrow> used_columns (run_lookup p' s' rules') = used_columns (run_lookup p s rules)"
    by (intro allI impI run_lookup_used) simp_all
  have 8: "\<forall>X Y k1 k2. X @ ''_FROM_'' @ Y \<notin> set (columns p)
              \<and> (X @ ''_FROM_'' @ Y) @ ''_2'' \<notin> set (columns p)
              \<longrightarrow> used_columns (run_lookup p s [(X, k1, Y), (X, k2, Y)]) =
                    finsert ((X @ ''_FROM_'' @ Y) @ ''_2'')
                      (finsert (X @ ''_FROM_'' @ Y) (fset_of_list (columns p)))"
  proof (intro allI impI, elim conjE)
    fix X Y k1 k2 :: string
    let ?c = "X @ ''_FROM_'' @ Y"
    let ?u = "fset_of_list (columns p)"
    assume c1: "?c \<notin> set (columns p)" and c2: "?c @ ''_2'' \<notin> set (columns p)"
    have "?c |\<notin>| ?u" using c1 by (simp only: fset_of_list.rep_eq not_False_eq_True)
    then have a: "name_loop ?c ?u ?c 2 = ?c" by (rule name_loop_free)
    have "?c @ ''_2'' |\<notin>| ?u" using c2 by (simp only: fset_of_list.rep_eq not_False_eq_True)
    moreover have "?c @ ''_2'' \<noteq> ?c" by simp
    ultimately have "?c @ ''_2'' |\<notin>| finsert ?c ?u" by (simp only: finsert_iff) blast
    moreover have "?c |\<in>| finsert ?c ?u" by (simp only: finsert_iff simp_thms)
    ultimately have c: "name_loop ?c (finsert ?c ?u) ?c 2 = ?c @ ''_2''"
      by (intro name_loop_second)
    have u0: "used_columns (run_lookup p s []) = ?u" by (simp add: run_lookup_Nil)
    show "used_columns (run_lookup p s [(X, k1, Y), (X, k2, Y)]) =
            finsert (?c @ ''_2'') (finsert ?c ?u)"
      unfolding run_lookup_two rule_step_used u0 a c ..
  qed
  show ?thesis
    by (rule exI [of _ n]) (intro conjI 1 2 3 4 5 6 7 8)
qed

theorem collision_naming_witness:
  "''ID'' @ ''_FROM_'' @ ''NAME'' \<notin> set (columns example_primary)
   \<and> (''ID'' @ ''_FROM_'' @ ''NAME'') @ ''_2'' \<notin> set (columns example_primary)
   \<and> used_columns (run_lookup example_primary example_secondary
        [(''ID'', ''ID'', ''NAME''), (''ID'', ''ID'', ''NAME'')])
     = finsert ((''ID'' @ ''_FROM_'' @ ''NAME'') @ ''_2'')
         (finsert (''ID'' @ ''_FROM_'' @ ''NAME'') (fset_of_list (columns example_primary)))
   \<and> columns (result_df (run_lookup example_primary example_secondary
        [(''ID'', ''ID'', ''NAME''), (''ID'', ''ID'', ''NAME'')]))
     = [''ID'', ''ID_FROM_NAME'', ''ID_FROM_NAME_2'']"
proof -
  let ?rules = "[(''ID'', ''ID'', ''NAME''), (''ID'', ''ID'', ''NAME'')]"
  have i: "1 < length ?rules" and r: "?rules ! 1 = (''ID'', ''ID'', ''NAME'')"
    by simp_all
  have a: "''ID'' @ ''_FROM_'' @ ''NAME'' \<notin> set (columns example_primary)"
    and b: "(''ID'' @ ''_FROM_'' @ ''NAME'') @ ''_2'' \<notin> set (columns example_primary)"
    by (simp_all add: example_primary_def)
  from collision_naming [OF example_tables_ok(1,2) i r]
  have "\<forall>X Y k1 k2. X @ ''_FROM_'' @ Y \<notin> set (columns example_primary)
          \<and> (X @ ''_FROM_'' @ Y) @ ''_2'' \<notin> set (columns example_primary)
          \<longrightarrow> used_columns (run_lookup example_primary example_secondary [(X, k1, Y), (X, k2, Y)]) =
                finsert ((X @ ''_FROM_'' @ Y) @ ''_2'')
                  (finsert (X @ ''_FROM_'' @ Y) (fset_of_list (columns example_primary)))"
    by blast
  with a b have u: "used_columns (run_lookup example_primary example_secondary ?rules)
     = finsert ((''ID'' @ ''_FROM_'' @ ''NAME'') @ ''_2'')
         (finsert (''ID'' @ ''_FROM_'' @ ''NAME'') (fset_of_list (columns example_primary)))"
    by blast
  have c: "columns (result_df (run_lookup example_primary example_secondary ?rules))
     = [''ID'', ''ID_FROM_NAME'', ''ID_FROM_NAME_2'']"
    by code_simp
  from a b u c show ?thesis by blast
qed

end
